theory Spec2Isabelle
  imports Main "HOL-Library.Multiset"
begin

section \<open>Testify.js: the suite runtime, its recorder and its assertions\<close>

text \<open>
  The repository holds two full copies of the suite runtime: the file
  \<^verbatim>\<open>lib/Testify/Testify.js\<close> and the bundled file whose name is unknown
  (\<^verbatim>\<open>unnamed/part_000\<close>). They differ in four places (the default message of
  \<^verbatim>\<open>recordTest\<close>, \<^verbatim>\<open>assert\<close> and \<^verbatim>\<open>assertEqual\<close>, the stack trace taken by
  \<^verbatim>\<open>recordTest\<close>, the guard of the \<^verbatim>\<open>before\<close> hook in \<^verbatim>\<open>run\<close>, and the global
  list \<^verbatim>\<open>Constructor.instances\<close>). Every definition below that depends on the copy
  takes it as an argument and branches on it exactly where the two texts differ.

  Scope of the value model. Arguments of assertions, messages and case names are
  primitive values: \<^verbatim>\<open>undefined\<close>, \<^verbatim>\<open>null\<close>, booleans, strings of code units below
  256, and numbers that are \<^verbatim>\<open>NaN\<close> or integers (meant are the integers that a double
  holds exactly). The second argument of \<^verbatim>\<open>assertInArray\<close> is an array of primitives
  or a primitive. Values handed to the registration calls are primitives or functions.
  Objects other than arrays and functions are not part of the model. A callback is a
  sequence of calls of the assertion surface, possibly ended by a \<^verbatim>\<open>throw\<close>;
  callbacks that catch errors, register cases, set hooks, run the suite or write its
  fields are not modelled.
\<close>

subsection \<open>Primitive values and the two equalities\<close>

datatype jsnum = NaN | Fin int

datatype prim = Undefined | Null | Bool bool | Num jsnum | Str string

text \<open>
  Two functions of the language are evaluated by the model only where that takes no
  floating-point arithmetic, and are left to the host otherwise: the value of a string
  as a number, and the text of a number. A \<open>host\<close> gives them on the remaining
  arguments. In \<open>number_of_string\<close> the result \<open>NaN\<close> also stands for a number that
  is no integer (a fraction or an infinity): such a number is equal to no number of the
  model, as \<^verbatim>\<open>NaN\<close> is.
\<close>

record host =
  number_of_string :: "string \<Rightarrow> jsnum"
  string_of_number :: "int \<Rightarrow> string"

text \<open>\<^verbatim>\<open>ToBoolean\<close>, as used by \<^verbatim>\<open>message || 'default'\<close>.\<close>

fun ToBoolean :: "prim \<Rightarrow> bool" where
  "ToBoolean Undefined = False"
| "ToBoolean Null = False"
| "ToBoolean (Bool b) = b"
| "ToBoolean (Num NaN) = False"
| "ToBoolean (Num (Fin n)) = (n \<noteq> 0)"
| "ToBoolean (Str s) = (s \<noteq> [])"

text \<open>The expression \<^verbatim>\<open>a || b\<close>.\<close>

definition or_else :: "prim \<Rightarrow> prim \<Rightarrow> prim" where
  "or_else a b = (if ToBoolean a then a else b)"

text \<open>
  \<^verbatim>\<open>StringToNumber\<close>. White space is trimmed from both ends. What is left is read by
  the model in three cases: the empty string is 0; a string that, after one optional
  sign, does not begin with a digit, a dot or the letter I is no numeric literal and is
  \<^verbatim>\<open>NaN\<close>; a string that, after one optional sign, consists of one to fifteen decimal
  digits is that integer. Every other string (a fraction, an exponent, a radix prefix,
  \<^verbatim>\<open>Infinity\<close>, a long run of digits, or a malformed literal) is left to the host.
\<close>

definition is_white :: "char \<Rightarrow> bool" where
  "is_white c =
     (c \<in> set [CHR 0x09, CHR 0x0A, CHR 0x0B, CHR 0x0C, CHR 0x0D, CHR 0x20, CHR 0xA0])"

definition trim :: "string \<Rightarrow> string" where
  "trim s = rev (dropWhile is_white (rev (dropWhile is_white s)))"

definition digit_value :: "char \<Rightarrow> nat option" where
  "digit_value c = map_of (zip ''0123456789'' [0, 1, 2, 3, 4, 5, 6, 7, 8, 9]) c"

fun decimal_digits :: "nat \<Rightarrow> string \<Rightarrow> nat option" where
  "decimal_digits acc [] = Some acc"
| "decimal_digits acc (c # cs) =
     (case digit_value c of
        None \<Rightarrow> None
      | Some d \<Rightarrow> decimal_digits (10 * acc + d) cs)"

definition short_integer :: "string \<Rightarrow> nat option" where
  "short_integer s = (if s = [] \<or> 15 < length s then None else decimal_digits 0 s)"

definition may_start_numeral :: "string \<Rightarrow> bool" where
  "may_start_numeral s =
     (case s of
        [] \<Rightarrow> False
      | c # cs \<Rightarrow> c \<in> set ''0123456789.I'')"

definition StringToNumber :: "host \<Rightarrow> string \<Rightarrow> jsnum" where
  "StringToNumber h s =
     (case trim s of
        [] \<Rightarrow> Fin 0
      | c # cs \<Rightarrow>
          (let signed = (c = CHR ''-'' \<or> c = CHR ''+'');
               body = (if signed then cs else c # cs)
           in if may_start_numeral body
              then (case short_integer body of
                      Some n \<Rightarrow> Fin (if c = CHR ''-'' then - int n else int n)
                    | None \<Rightarrow> number_of_string h s)
              else NaN))"

definition bool_number :: "bool \<Rightarrow> jsnum" where
  "bool_number b = (if b then Fin 1 else Fin 0)"

text \<open>Equality of two numbers: \<^verbatim>\<open>NaN\<close> equals nothing, itself included.\<close>

fun number_equal :: "jsnum \<Rightarrow> jsnum \<Rightarrow> bool" where
  "number_equal (Fin a) (Fin b) = (a = b)"
| "number_equal _ _ = False"

text \<open>The operator \<^verbatim>\<open>===\<close> on primitives: same type and same value.\<close>

fun strict_equal :: "prim \<Rightarrow> prim \<Rightarrow> bool" where
  "strict_equal Undefined Undefined = True"
| "strict_equal Null Null = True"
| "strict_equal (Bool a) (Bool b) = (a = b)"
| "strict_equal (Num a) (Num b) = number_equal a b"
| "strict_equal (Str a) (Str b) = (a = b)"
| "strict_equal _ _ = False"

text \<open>
  The operator \<^verbatim>\<open>==\<close> on primitives: operands of one type compare strictly;
  \<^verbatim>\<open>null\<close> and \<^verbatim>\<open>undefined\<close> equal each other and nothing else; a boolean is first
  turned into a number; a string facing a number is turned into a number.
\<close>

fun loose_equal :: "host \<Rightarrow> prim \<Rightarrow> prim \<Rightarrow> bool" where
  "loose_equal h Undefined y = (y = Undefined \<or> y = Null)"
| "loose_equal h Null y = (y = Undefined \<or> y = Null)"
| "loose_equal h (Bool a) (Bool b) = (a = b)"
| "loose_equal h (Bool a) (Num b) = number_equal (bool_number a) b"
| "loose_equal h (Bool a) (Str b) = number_equal (bool_number a) (StringToNumber h b)"
| "loose_equal h (Bool a) _ = False"
| "loose_equal h (Num a) (Bool b) = number_equal a (bool_number b)"
| "loose_equal h (Num a) (Num b) = number_equal a b"
| "loose_equal h (Num a) (Str b) = number_equal a (StringToNumber h b)"
| "loose_equal h (Num a) _ = False"
| "loose_equal h (Str a) (Bool b) = number_equal (StringToNumber h a) (bool_number b)"
| "loose_equal h (Str a) (Num b) = number_equal (StringToNumber h a) b"
| "loose_equal h (Str a) (Str b) = (a = b)"
| "loose_equal h (Str a) _ = False"

text \<open>
  \<^verbatim>\<open>ToString\<close>, which turns \<^verbatim>\<open>this.currentTestCase\<close> into the property key of
  \<^verbatim>\<open>this.stack[...]\<close> and the registration count into the generated case name. An
  integer below \<open>10\<^sup>2\<^sup>1\<close> in magnitude is written in decimal digits; the text of a
  larger one, which has an exponent, is left to the host.
\<close>

definition digit_char :: "nat \<Rightarrow> char" where
  "digit_char d = ''0123456789'' ! d"

function string_of_nat :: "nat \<Rightarrow> string" where
  "string_of_nat n =
     (if n < 10 then [digit_char n] else string_of_nat (n div 10) @ [digit_char (n mod 10)])"
  by pat_completeness auto
termination
  by (relation "measure (\<lambda>n. n)") auto

declare string_of_nat.simps [simp del]

fun ToString :: "host \<Rightarrow> prim \<Rightarrow> string" where
  "ToString h Undefined = ''undefined''"
| "ToString h Null = ''null''"
| "ToString h (Bool b) = (if b then ''true'' else ''false'')"
| "ToString h (Num NaN) = ''NaN''"
| "ToString h (Num (Fin n)) =
     (if 1000000000000000000000 \<le> \<bar>n\<bar> then string_of_number h n
      else if n < 0 then CHR ''-'' # string_of_nat (nat (- n))
      else string_of_nat (nat n))"
| "ToString h (Str s) = s"

subsection \<open>Callbacks, errors and the state of a suite\<close>

text \<open>
  What can stand as second argument of \<^verbatim>\<open>assertInArray\<close> and
  \<^verbatim>\<open>assertNotInArray\<close>: an array of primitives, or a primitive.
\<close>

datatype collection = Array "prim list" | Not_array prim

text \<open>
  The calls of the assertion surface, with their arguments. The last argument of each is
  the message; an omitted message is \<^verbatim>\<open>undefined\<close>.
\<close>

datatype call =
    Assert prim prim
  | AssertTrue prim prim
  | AssertFalse prim prim
  | AssertEquals prim prim prim
  | AssertNotEquals prim prim prim
  | AssertSame prim prim prim
  | AssertNotSame prim prim prim
  | AssertInArray prim collection prim
  | AssertNotInArray prim collection prim
  | Pass prim
  | Fail prim
  | AssertEqual prim prim prim
  | AssertIdentical prim prim prim

text \<open>
  A callback (a hook or the body of a test case) is a function value: an identity and
  the statements it executes. A statement calls a method of the assertion surface on
  \<^verbatim>\<open>this\<close> or on one of the callback's parameters, or throws.
\<close>

datatype target = This | Param nat

datatype stmt = Invoke target call | Throw prim

datatype jsval = Prim prim | Function nat "stmt list"

text \<open>The only object a callback can reach in this model is the suite instance.\<close>

datatype ref = Suite_instance

datatype exn = TestifyException string | TypeError | Thrown prim

text \<open>
  What an observer of an execution sees: a call of the assertion surface, a callback
  applied to a receiver and an argument list, a call of \<^verbatim>\<open>report\<close>.
\<close>

datatype event = Called call | Applied nat ref "ref list" | Reported

record assertion_record =
  ar_name :: prim
  ar_type :: string
  ar_result :: string
  ar_line :: nat
  ar_file :: string
  ar_source :: string

record case_result =
  cr_name :: prim
  cr_tests :: "assertion_record list"
  cr_pass :: nat
  cr_fail :: nat

record test_case =
  tc_name :: prim
  tc_testCase :: jsval
  tc_pass :: nat
  tc_fail :: nat

record suite_results =
  sr_pass :: nat
  sr_fail :: nat

text \<open>
  The fields that \<^verbatim>\<open>Constructor\<close> sets on the instance. The hooks \<^verbatim>\<open>_before\<close>,
  \<^verbatim>\<open>_after\<close>, \<^verbatim>\<open>_beforeEach\<close>, \<^verbatim>\<open>_afterEach\<close> are the fields \<open>before_hook\<close>, ...;
  \<open>isCLI_arg\<close> is the constructor argument that the closure \<^verbatim>\<open>isCLI\<close> captures. The
  field \<open>stack\<close> holds the own properties of the object \<^verbatim>\<open>this.stack\<close> in the order of
  their creation. An engine enumerates keys that are array indices first; no operation
  below depends on the order, and the observations that list the stack list it in the
  order of creation.
\<close>

record suite =
  testIndex :: nat
  tests :: "test_case list"
  stack :: "(string \<times> case_result) list"
  fileCache :: "string list"
  currentTestCase :: prim
  suiteTitle :: prim
  suiteResults :: suite_results
  before_hook :: jsval
  after_hook :: jsval
  beforeEach_hook :: jsval
  afterEach_hook :: jsval
  data :: "(string \<times> prim) list"
  isCLI_arg :: prim

text \<open>
  The instance together with what lies outside it: the global list
  \<^verbatim>\<open>Constructor.instances\<close>, and the log of observed events (the log is not a
  JavaScript value; no operation reads it).
\<close>

record world = suite +
  instances :: "ref list"
  events :: "event list"

text \<open>
  The copy of the runtime. \<^verbatim>\<open>lib/Testify/Testify.js\<close> calls the external function
  \<^verbatim>\<open>printStackTrace\<close> (not part of the repository) in every \<^verbatim>\<open>recordTest\<close>; the
  argument of \<open>Lib_Testify\<close> gives the text of the trace taken when \<^verbatim>\<open>testIndex\<close> has
  the given value.
\<close>

datatype copy = Lib_Testify "nat \<Rightarrow> string" | Part_000

definition Constructor :: "prim \<Rightarrow> prim \<Rightarrow> world" where
  "Constructor title isCLI =
     \<lparr> testIndex = 0, tests = [], stack = [], fileCache = [],
       currentTestCase = Null, suiteTitle = title,
       suiteResults = \<lparr> sr_pass = 0, sr_fail = 0 \<rparr>,
       before_hook = Prim Null, after_hook = Prim Null,
       beforeEach_hook = Prim Null, afterEach_hook = Prim Null,
       data = [], isCLI_arg = isCLI,
       instances = [], events = [] \<rparr>"

definition isCLI :: "world \<Rightarrow> prim" where
  "isCLI s = or_else (isCLI_arg s) (Bool False)"

subsection \<open>The result recorder\<close>

text \<open>
  Reading \<^verbatim>\<open>this.stack[key]\<close>. The stack is a plain object, \<^verbatim>\<open>{}\<close>: where it has no
  own property of that name, the read finds the member of that name that every object
  inherits from \<^verbatim>\<open>Object.prototype\<close>, if there is one. All of these members are
  functions or objects, hence truthy, and none has a property \<^verbatim>\<open>tests\<close>.
\<close>

definition inherited :: "string \<Rightarrow> bool" where
  "inherited key =
     (key \<in> set [''constructor'', ''hasOwnProperty'', ''isPrototypeOf'',
        ''propertyIsEnumerable'', ''toLocaleString'', ''toString'', ''valueOf'',
        ''__proto__'', ''__defineGetter__'', ''__defineSetter__'',
        ''__lookupGetter__'', ''__lookupSetter__''])"

datatype property = Own case_result | Inherited | Missing

definition lookup :: "(string \<times> case_result) list \<Rightarrow> string \<Rightarrow> property" where
  "lookup st key =
     (case map_of st key of
        Some item \<Rightarrow> Own item
      | None \<Rightarrow> if inherited key then Inherited else Missing)"

text \<open>\<^verbatim>\<open>item[result]++\<close> and \<^verbatim>\<open>this.suiteResults[result]++\<close>.\<close>

definition increment_case :: "string \<Rightarrow> case_result \<Rightarrow> case_result" where
  "increment_case result item =
     (if result = ''pass'' then item\<lparr>cr_pass := cr_pass item + 1\<rparr>
      else item\<lparr>cr_fail := cr_fail item + 1\<rparr>)"

definition increment_results :: "string \<Rightarrow> suite_results \<Rightarrow> suite_results" where
  "increment_results result r =
     (if result = ''pass'' then r\<lparr>sr_pass := sr_pass r + 1\<rparr>
      else r\<lparr>sr_fail := sr_fail r + 1\<rparr>)"

text \<open>Writing \<^verbatim>\<open>stack[key] = item\<close>: an existing key keeps its place, a new one goes last.\<close>

fun put :: "string \<Rightarrow> case_result \<Rightarrow> (string \<times> case_result) list \<Rightarrow> (string \<times> case_result) list" where
  "put k v [] = [(k, v)]"
| "put k v (p # ps) = (if fst p = k then (k, v) # ps else p # put k v ps)"

text \<open>
  \<^verbatim>\<open>recordTest\<close>. When the read of \<^verbatim>\<open>this.stack[this.currentTestCase]\<close> finds an
  inherited member, no entry is created, \<^verbatim>\<open>this.testIndex++\<close> is executed, and
  \<^verbatim>\<open>item.tests.push\<close> throws a \<^verbatim>\<open>TypeError\<close>, since \<^verbatim>\<open>item.tests\<close> is \<^verbatim>\<open>undefined\<close>.
\<close>

definition recordTest :: "host \<Rightarrow> copy \<Rightarrow> bool \<Rightarrow> prim \<Rightarrow> world \<Rightarrow> (exn + bool) \<times> world" where
  "recordTest h c pass message s =
     (let message = or_else message
            (Str (case c of Lib_Testify pst \<Rightarrow> [] | Part_000 \<Rightarrow> ''Testify.recordTest''));
          bt = (case c of Lib_Testify pst \<Rightarrow> pst (testIndex s) | Part_000 \<Rightarrow> []);
          source = [];
          result = (if pass then ''pass'' else ''fail'');
          key = ToString h (currentTestCase s);
          found = lookup (stack s) key;
          index = testIndex s + 1
      in case found of
           Inherited \<Rightarrow> (Inl TypeError, s\<lparr> testIndex := index \<rparr>)
         | _ \<Rightarrow>
           (let item = (case found of
                         Own it \<Rightarrow> it
                       | _ \<Rightarrow> \<lparr> cr_name = currentTestCase s, cr_tests = [],
                                 cr_pass = 0, cr_fail = 0 \<rparr>);
                item = item\<lparr> cr_tests := cr_tests item @
                         [\<lparr> ar_name = message, ar_type = bt, ar_result = result,
                            ar_line = index, ar_file = [], ar_source = source \<rparr>] \<rparr>;
                item = increment_case result item
            in (Inr pass, s\<lparr> testIndex := index, stack := put key item (stack s),
                     suiteResults := increment_results result (suiteResults s) \<rparr>)))"

subsection \<open>The assertion surface\<close>

text \<open>
  \<^verbatim>\<open>arr.indexOf(arg)\<close> on an array: a scan from the left with \<^verbatim>\<open>===\<close>; \<open>-1\<close> when
  absent.
\<close>

fun indexOf_from :: "int \<Rightarrow> prim list \<Rightarrow> prim \<Rightarrow> int" where
  "indexOf_from i [] v = - 1"
| "indexOf_from i (x # xs) v = (if strict_equal x v then i else indexOf_from (i + 1) xs v)"

definition indexOf :: "prim list \<Rightarrow> prim \<Rightarrow> int" where
  "indexOf arr v = indexOf_from 0 arr v"

text \<open>
  \<^verbatim>\<open>str.indexOf(search)\<close> on a string: the first position at which \<open>search\<close> occurs
  in \<open>str\<close>; \<open>-1\<close> when it does not occur.
\<close>

fun string_indexOf_from :: "int \<Rightarrow> string \<Rightarrow> string \<Rightarrow> int" where
  "string_indexOf_from i [] search = (if search = [] then i else - 1)"
| "string_indexOf_from i (x # xs) search =
     (if take (length search) (x # xs) = search then i
      else string_indexOf_from (i + 1) xs search)"

text \<open>
  The expression \<^verbatim>\<open>arr.indexOf(arg) > -1\<close>. On \<^verbatim>\<open>null\<close> and \<^verbatim>\<open>undefined\<close> the read of
  \<^verbatim>\<open>indexOf\<close> throws; booleans and numbers have no such method, so the call throws; a
  string searches itself for the text of the argument.
\<close>

fun member_of :: "host \<Rightarrow> collection \<Rightarrow> prim \<Rightarrow> exn + bool" where
  "member_of h (Array xs) arg = Inr (indexOf xs arg > - 1)"
| "member_of h (Not_array (Str str)) arg =
     Inr (string_indexOf_from 0 str (ToString h arg) > - 1)"
| "member_of h (Not_array p) arg = Inl TypeError"

definition assertTrue :: "host \<Rightarrow> copy \<Rightarrow> prim \<Rightarrow> prim \<Rightarrow> world \<Rightarrow> (exn + bool) \<times> world" where
  "assertTrue h c arg message s =
     (let message = or_else message (Str ''Testify.assertTrue'')
      in recordTest h c (loose_equal h arg (Bool True)) message s)"

definition assert :: "host \<Rightarrow> copy \<Rightarrow> prim \<Rightarrow> prim \<Rightarrow> world \<Rightarrow> (exn + bool) \<times> world" where
  "assert h c arg message s =
     (let message = or_else message
            (Str (case c of Lib_Testify pst \<Rightarrow> [] | Part_000 \<Rightarrow> ''Testify.assert''))
      in assertTrue h c arg message s)"

definition assertFalse :: "host \<Rightarrow> copy \<Rightarrow> prim \<Rightarrow> prim \<Rightarrow> world \<Rightarrow> (exn + bool) \<times> world" where
  "assertFalse h c arg message s =
     (let message = or_else message (Str ''Testify.assertFalse'')
      in recordTest h c (loose_equal h arg (Bool False)) message s)"

definition assertEquals ::
  "host \<Rightarrow> copy \<Rightarrow> prim \<Rightarrow> prim \<Rightarrow> prim \<Rightarrow> world \<Rightarrow> (exn + bool) \<times> world" where
  "assertEquals h c arg1 arg2 message s =
     (let message = or_else message (Str ''Testify.assertEquals'')
      in recordTest h c (loose_equal h arg1 arg2) message s)"

definition assertNotEquals ::
  "host \<Rightarrow> copy \<Rightarrow> prim \<Rightarrow> prim \<Rightarrow> prim \<Rightarrow> world \<Rightarrow> (exn + bool) \<times> world" where
  "assertNotEquals h c arg1 arg2 message s =
     (let message = or_else message (Str ''Testify.assertNotEquals'')
      in recordTest h c (\<not> loose_equal h arg1 arg2) message s)"

definition assertSame ::
  "host \<Rightarrow> copy \<Rightarrow> prim \<Rightarrow> prim \<Rightarrow> prim \<Rightarrow> world \<Rightarrow> (exn + bool) \<times> world" where
  "assertSame h c arg1 arg2 message s =
     (let message = or_else message (Str ''Testify.assertSame'')
      in recordTest h c (strict_equal arg1 arg2) message s)"

definition assertNotSame ::
  "host \<Rightarrow> copy \<Rightarrow> prim \<Rightarrow> prim \<Rightarrow> prim \<Rightarrow> world \<Rightarrow> (exn + bool) \<times> world" where
  "assertNotSame h c arg1 arg2 message s =
     (let message = or_else message (Str ''Testify.assertNotSame'')
      in recordTest h c (\<not> strict_equal arg1 arg2) message s)"

definition assertInArray ::
  "host \<Rightarrow> copy \<Rightarrow> prim \<Rightarrow> collection \<Rightarrow> prim \<Rightarrow> world \<Rightarrow> (exn + bool) \<times> world" where
  "assertInArray h c arg arr message s =
     (let message = or_else message (Str ''Testify.assertInArray'')
      in case member_of h arr arg of
           Inl e \<Rightarrow> (Inl e, s)
         | Inr found \<Rightarrow> recordTest h c found message s)"

definition assertNotInArray ::
  "host \<Rightarrow> copy \<Rightarrow> prim \<Rightarrow> collection \<Rightarrow> prim \<Rightarrow> world \<Rightarrow> (exn + bool) \<times> world" where
  "assertNotInArray h c arg arr message s =
     (let message = or_else message (Str ''Testify.assertNotInArray'')
      in case member_of h arr arg of
           Inl e \<Rightarrow> (Inl e, s)
         | Inr found \<Rightarrow> recordTest h c (\<not> found) message s)"

definition pass :: "host \<Rightarrow> copy \<Rightarrow> prim \<Rightarrow> world \<Rightarrow> (exn + bool) \<times> world" where
  "pass h c message s =
     (let message = or_else message (Str ''Testify.pass'')
      in recordTest h c True message s)"

definition fail :: "host \<Rightarrow> copy \<Rightarrow> prim \<Rightarrow> world \<Rightarrow> (exn + bool) \<times> world" where
  "fail h c message s =
     (let message = or_else message (Str ''Testify.fail'')
      in recordTest h c False message s)"

definition assertEqual ::
  "host \<Rightarrow> copy \<Rightarrow> prim \<Rightarrow> prim \<Rightarrow> prim \<Rightarrow> world \<Rightarrow> (exn + bool) \<times> world" where
  "assertEqual h c arg1 arg2 message s =
     (let message = or_else message
            (Str (case c of Lib_Testify pst \<Rightarrow> [] | Part_000 \<Rightarrow> ''Testify.assertEqual''))
      in assertEquals h c arg1 arg2 message s)"

definition assertIdentical ::
  "host \<Rightarrow> copy \<Rightarrow> prim \<Rightarrow> prim \<Rightarrow> prim \<Rightarrow> world \<Rightarrow> (exn + bool) \<times> world" where
  "assertIdentical h c arg1 arg2 message s =
     (let message = or_else message (Str ''Testify.assertIdentical'')
      in recordTest h c (strict_equal arg1 arg2) message s)"

subsection \<open>The callable guard and the registration calls\<close>

text \<open>
  Whether \<^verbatim>\<open>fn.call\<close> (and likewise \<^verbatim>\<open>fn.apply\<close>) is not \<^verbatim>\<open>undefined\<close>. Reading a
  property of \<^verbatim>\<open>null\<close> or \<^verbatim>\<open>undefined\<close> throws a \<^verbatim>\<open>TypeError\<close>; booleans, numbers
  and strings have no such property; every function inherits both from
  \<^verbatim>\<open>Function.prototype\<close>.
\<close>

fun member_defined :: "jsval \<Rightarrow> exn + bool" where
  "member_defined (Prim Undefined) = Inl TypeError"
| "member_defined (Prim Null) = Inl TypeError"
| "member_defined (Prim p) = Inr False"
| "member_defined (Function i body) = Inr True"

definition isCallable :: "jsval \<Rightarrow> exn + bool" where
  "isCallable fn =
     (case member_defined fn of
        Inl e \<Rightarrow> Inl e
      | Inr call_defined \<Rightarrow> if call_defined then member_defined fn else Inr False)"

definition affirmCallable :: "jsval \<Rightarrow> string \<Rightarrow> exn + unit" where
  "affirmCallable callback name =
     (case isCallable callback of
        Inl e \<Rightarrow> Inl e
      | Inr callable \<Rightarrow>
          if \<not> callable
          then Inl (TestifyException (name @ ''(): is not a valid callback function!''))
          else Inr ())"

text \<open>
  The name that \<^verbatim>\<open>test\<close> stores. A callable first argument is replaced by the generated
  name before it is stored, so a stored name is never a function.
\<close>

fun prim_of :: "jsval \<Rightarrow> prim" where
  "prim_of (Prim p) = p"
| "prim_of (Function i body) = Undefined"

definition test :: "jsval \<Rightarrow> jsval \<Rightarrow> world \<Rightarrow> (exn + ref) \<times> world" where
  "test name testCase s =
     (case isCallable name of
        Inl e \<Rightarrow> (Inl e, s)
      | Inr callable \<Rightarrow>
          (let testCase = (if callable then name else testCase);
               name = (if callable
                       then Str (''Test Case #'' @ string_of_nat (length (tests s) + 1))
                       else prim_of name)
           in case affirmCallable testCase ''test'' of
                Inl e \<Rightarrow> (Inl e, s)
              | Inr u \<Rightarrow>
                  (Inr Suite_instance,
                   s\<lparr> tests := tests s @
                        [\<lparr> tc_name = name, tc_testCase = testCase, tc_pass = 0, tc_fail = 0 \<rparr>] \<rparr>)))"

definition before :: "jsval \<Rightarrow> world \<Rightarrow> (exn + unit) \<times> world" where
  "before callback s =
     (case affirmCallable callback ''before'' of
        Inl e \<Rightarrow> (Inl e, s)
      | Inr u \<Rightarrow> (Inr (), s\<lparr> before_hook := callback \<rparr>))"

definition after :: "jsval \<Rightarrow> world \<Rightarrow> (exn + unit) \<times> world" where
  "after callback s =
     (case affirmCallable callback ''after'' of
        Inl e \<Rightarrow> (Inl e, s)
      | Inr u \<Rightarrow> (Inr (), s\<lparr> after_hook := callback \<rparr>))"

definition beforeEach :: "jsval \<Rightarrow> world \<Rightarrow> (exn + unit) \<times> world" where
  "beforeEach callback s =
     (case affirmCallable callback ''beforeEach'' of
        Inl e \<Rightarrow> (Inl e, s)
      | Inr u \<Rightarrow> (Inr (), s\<lparr> beforeEach_hook := callback \<rparr>))"

definition afterEach :: "jsval \<Rightarrow> world \<Rightarrow> (exn + unit) \<times> world" where
  "afterEach callback s =
     (case affirmCallable callback ''afterEach'' of
        Inl e \<Rightarrow> (Inl e, s)
      | Inr u \<Rightarrow> (Inr (), s\<lparr> afterEach_hook := callback \<rparr>))"

subsection \<open>Executing callbacks\<close>

fun dispatch :: "host \<Rightarrow> copy \<Rightarrow> call \<Rightarrow> world \<Rightarrow> (exn + bool) \<times> world" where
  "dispatch h c (Assert arg m) s = assert h c arg m s"
| "dispatch h c (AssertTrue arg m) s = assertTrue h c arg m s"
| "dispatch h c (AssertFalse arg m) s = assertFalse h c arg m s"
| "dispatch h c (AssertEquals a b m) s = assertEquals h c a b m s"
| "dispatch h c (AssertNotEquals a b m) s = assertNotEquals h c a b m s"
| "dispatch h c (AssertSame a b m) s = assertSame h c a b m s"
| "dispatch h c (AssertNotSame a b m) s = assertNotSame h c a b m s"
| "dispatch h c (AssertInArray a arr m) s = assertInArray h c a arr m s"
| "dispatch h c (AssertNotInArray a arr m) s = assertNotInArray h c a arr m s"
| "dispatch h c (Pass m) s = pass h c m s"
| "dispatch h c (Fail m) s = fail h c m s"
| "dispatch h c (AssertEqual a b m) s = assertEqual h c a b m s"
| "dispatch h c (AssertIdentical a b m) s = assertIdentical h c a b m s"

text \<open>A call of the assertion surface by a caller: the call is observed, then made.\<close>

definition invoke :: "host \<Rightarrow> copy \<Rightarrow> call \<Rightarrow> world \<Rightarrow> (exn + bool) \<times> world" where
  "invoke h c cl s = dispatch h c cl (s\<lparr> events := events s @ [Called cl] \<rparr>)"

text \<open>
  The object a statement addresses, inside a callback applied to \<open>thisArg\<close> and
  \<open>args\<close>; a parameter beyond the argument list is \<^verbatim>\<open>undefined\<close>.
\<close>

definition resolve :: "ref \<Rightarrow> ref list \<Rightarrow> target \<Rightarrow> ref option" where
  "resolve thisArg args t =
     (case t of
        This \<Rightarrow> Some thisArg
      | Param i \<Rightarrow> if i < length args then Some (args ! i) else None)"

fun exec_stmt ::
  "host \<Rightarrow> copy \<Rightarrow> ref \<Rightarrow> ref list \<Rightarrow> stmt \<Rightarrow> world \<Rightarrow> (exn + unit) \<times> world" where
  "exec_stmt h c thisArg args (Throw v) s = (Inl (Thrown v), s)"
| "exec_stmt h c thisArg args (Invoke t cl) s =
     (case resolve thisArg args t of
        None \<Rightarrow> (Inl TypeError, s)
      | Some Suite_instance \<Rightarrow>
          (case invoke h c cl s of
             (Inl e, s') \<Rightarrow> (Inl e, s')
           | (Inr b, s') \<Rightarrow> (Inr (), s')))"

fun exec_body ::
  "host \<Rightarrow> copy \<Rightarrow> ref \<Rightarrow> ref list \<Rightarrow> stmt list \<Rightarrow> world \<Rightarrow> (exn + unit) \<times> world" where
  "exec_body h c thisArg args [] s = (Inr (), s)"
| "exec_body h c thisArg args (st # sts) s =
     (case exec_stmt h c thisArg args st s of
        (Inl e, s') \<Rightarrow> (Inl e, s')
      | (Inr u, s') \<Rightarrow> exec_body h c thisArg args sts s')"

text \<open>\<^verbatim>\<open>fn.apply(thisArg, args)\<close>; applying a value that is no function is a \<^verbatim>\<open>TypeError\<close>.\<close>

fun apply_fn ::
  "host \<Rightarrow> copy \<Rightarrow> jsval \<Rightarrow> ref \<Rightarrow> ref list \<Rightarrow> world \<Rightarrow> (exn + unit) \<times> world" where
  "apply_fn h c (Function i body) thisArg args s =
     exec_body h c thisArg args body (s\<lparr> events := events s @ [Applied i thisArg args] \<rparr>)"
| "apply_fn h c (Prim p) thisArg args s = (Inl TypeError, s)"

subsection \<open>Running the suite\<close>

definition report :: "world \<Rightarrow> (exn + ref) \<times> world" where
  "report s =
     (let title = suiteTitle s; suiteResults = suiteResults s; cases = stack s;
          s = s\<lparr> events := events s @ [Reported] \<rparr>
      in (Inr Suite_instance, if ToBoolean (isCLI s) then s else s))"

text \<open>
  The statement \<^verbatim>\<open>if (hook !== null && isCallable(hook)) hook.apply(this, arr)\<close>;
  without the first conjunct when \<open>null_guard\<close> is false.
\<close>

definition apply_hook ::
  "host \<Rightarrow> copy \<Rightarrow> bool \<Rightarrow> jsval \<Rightarrow> ref list \<Rightarrow> world \<Rightarrow> (exn + unit) \<times> world" where
  "apply_hook h c null_guard hook arr s =
     (if null_guard \<and> hook = Prim Null then (Inr (), s)
      else (case isCallable hook of
              Inl e \<Rightarrow> (Inl e, s)
            | Inr callable \<Rightarrow>
                if callable then apply_fn h c hook Suite_instance arr s else (Inr (), s)))"

text \<open>The loop over \<^verbatim>\<open>this.tests\<close>.\<close>

fun run_cases ::
  "host \<Rightarrow> copy \<Rightarrow> ref list \<Rightarrow> test_case list \<Rightarrow> world \<Rightarrow> (exn + unit) \<times> world" where
  "run_cases h c arr [] s = (Inr (), s)"
| "run_cases h c arr (t # ts) s =
     (let s = s\<lparr> currentTestCase := tc_name t \<rparr>
      in case apply_hook h c True (beforeEach_hook s) arr s of
           (Inl e, s) \<Rightarrow> (Inl e, s)
         | (Inr u, s) \<Rightarrow>
             (case apply_fn h c (tc_testCase t) Suite_instance arr s of
                (Inl e, s) \<Rightarrow> (Inl e, s)
              | (Inr u, s) \<Rightarrow>
                  (case apply_hook h c True (afterEach_hook s) arr s of
                     (Inl e, s) \<Rightarrow> (Inl e, s)
                   | (Inr u, s) \<Rightarrow> run_cases h c arr ts s)))"

text \<open>
  \<^verbatim>\<open>run\<close>. The copy \<^verbatim>\<open>lib/Testify/Testify.js\<close> tests the \<^verbatim>\<open>before\<close> hook with
  \<^verbatim>\<open>isCallable\<close> alone and keeps no list of instances.
\<close>

definition run :: "host \<Rightarrow> copy \<Rightarrow> world \<Rightarrow> (exn + ref) \<times> world" where
  "run h c s =
     (let arr = [Suite_instance]
      in case apply_hook h c (case c of Lib_Testify pst \<Rightarrow> False | Part_000 \<Rightarrow> True)
                (before_hook s) arr s of
           (Inl e, s) \<Rightarrow> (Inl e, s)
         | (Inr u, s) \<Rightarrow>
             (case run_cases h c arr (tests s) s of
                (Inl e, s) \<Rightarrow> (Inl e, s)
              | (Inr u, s) \<Rightarrow>
                  (case apply_hook h c True (after_hook s) arr s of
                     (Inl e, s) \<Rightarrow> (Inl e, s)
                   | (Inr u, s) \<Rightarrow>
                       (case report s of
                          (Inl e, s) \<Rightarrow> (Inl e, s)
                        | (Inr r, s) \<Rightarrow>
                            (Inr Suite_instance,
                             case c of
                               Lib_Testify pst \<Rightarrow> s
                             | Part_000 \<Rightarrow> s\<lparr> instances := instances s @ [Suite_instance] \<rparr>)))))"

subsection \<open>Sequences of calls on a suite\<close>

text \<open>
  The calls a user of the suite can make, and what each returns. A user who catches an
  error goes on with the suite as the failed call left it.
\<close>

datatype op =
    Do call
  | Test jsval jsval
  | Before jsval
  | After jsval
  | BeforeEach jsval
  | AfterEach jsval
  | Run
  | Report

datatype retval = Boolean bool | Reference ref | Nothing

definition returning :: "('a \<Rightarrow> retval) \<Rightarrow> (exn + 'a) \<times> world \<Rightarrow> (exn + retval) \<times> world" where
  "returning f r = (case r of (Inl e, s) \<Rightarrow> (Inl e, s) | (Inr x, s) \<Rightarrow> (Inr (f x), s))"

fun step :: "host \<Rightarrow> copy \<Rightarrow> op \<Rightarrow> world \<Rightarrow> (exn + retval) \<times> world" where
  "step h c (Do cl) s = returning Boolean (invoke h c cl s)"
| "step h c (Test name testCase) s = returning Reference (test name testCase s)"
| "step h c (Before callback) s = returning (\<lambda>u. Nothing) (before callback s)"
| "step h c (After callback) s = returning (\<lambda>u. Nothing) (after callback s)"
| "step h c (BeforeEach callback) s = returning (\<lambda>u. Nothing) (beforeEach callback s)"
| "step h c (AfterEach callback) s = returning (\<lambda>u. Nothing) (afterEach callback s)"
| "step h c Run s = returning Reference (run h c s)"
| "step h c Report s = returning Reference (report s)"

fun steps :: "host \<Rightarrow> copy \<Rightarrow> op list \<Rightarrow> world \<Rightarrow> world" where
  "steps h c [] s = s"
| "steps h c (x # xs) s = steps h c xs (snd (step h c x s))"

fun outcomes :: "host \<Rightarrow> copy \<Rightarrow> op list \<Rightarrow> world \<Rightarrow> (exn + retval) list" where
  "outcomes h c [] s = []"
| "outcomes h c (x # xs) s = fst (step h c x s) # outcomes h c xs (snd (step h c x s))"

subsection \<open>Observations on a suite\<close>

text \<open>
  The entry of the current case in \<^verbatim>\<open>stack\<close>; a case that has recorded nothing yet has
  the entry the recorder would create for it.
\<close>

definition entry :: "host \<Rightarrow> world \<Rightarrow> case_result" where
  "entry h s =
     (case map_of (stack s) (ToString h (currentTestCase s)) of
        None \<Rightarrow> \<lparr> cr_name = currentTestCase s, cr_tests = [], cr_pass = 0, cr_fail = 0 \<rparr>
      | Some it \<Rightarrow> it)"

text \<open>
  \<open>recordable h s\<close>: the read of \<^verbatim>\<open>this.stack[this.currentTestCase]\<close> in state \<open>s\<close>
  finds an own entry or nothing, not an inherited member.
\<close>

definition recordable :: "host \<Rightarrow> world \<Rightarrow> bool" where
  "recordable h s =
     (case lookup (stack s) (ToString h (currentTestCase s)) of
        Inherited \<Rightarrow> False
      | _ \<Rightarrow> True)"

text \<open>
  \<open>recorded h outcome s s'\<close>: going from \<open>s\<close> to \<open>s'\<close>, one assertion with the given
  outcome was recorded under the current case. The entry of the case is stored in the
  stack, it has one more record, which is its last one, carries the outcome and the next
  sequence index; the matching counter of the case and of the suite went up by one, the
  other counters stayed.
\<close>

definition recorded :: "host \<Rightarrow> bool \<Rightarrow> world \<Rightarrow> world \<Rightarrow> bool" where
  "recorded h outcome s s' =
     (currentTestCase s' = currentTestCase s \<and>
      map_of (stack s') (ToString h (currentTestCase s)) = Some (entry h s') \<and>
      testIndex s' = testIndex s + 1 \<and>
      cr_tests (entry h s') = cr_tests (entry h s) @ [last (cr_tests (entry h s'))] \<and>
      ar_result (last (cr_tests (entry h s'))) = (if outcome then ''pass'' else ''fail'') \<and>
      ar_line (last (cr_tests (entry h s'))) = testIndex s + 1 \<and>
      cr_pass (entry h s') = cr_pass (entry h s) + (if outcome then 1 else 0) \<and>
      cr_fail (entry h s') = cr_fail (entry h s) + (if outcome then 0 else 1) \<and>
      sr_pass (suiteResults s') = sr_pass (suiteResults s) + (if outcome then 1 else 0) \<and>
      sr_fail (suiteResults s') = sr_fail (suiteResults s) + (if outcome then 0 else 1))"

text \<open>The sum of \<^verbatim>\<open>pass + fail\<close> over the entries of the stack, and the suite's total.\<close>

definition stack_total :: "world \<Rightarrow> nat" where
  "stack_total s = sum_list (map (\<lambda>kv. cr_pass (snd kv) + cr_fail (snd kv)) (stack s))"

definition results_total :: "world \<Rightarrow> nat" where
  "results_total s = sr_pass (suiteResults s) + sr_fail (suiteResults s)"

text \<open>The number of calls of the assertion surface observed so far.\<close>

fun is_call :: "event \<Rightarrow> bool" where
  "is_call (Called cl) = True"
| "is_call (Applied i thisArg args) = False"
| "is_call Reported = False"

definition assertion_calls :: "world \<Rightarrow> nat" where
  "assertion_calls s = length (filter is_call (events s))"

text \<open>The sequence indices of all the records of the stack, case after case.\<close>

definition case_lines :: "case_result \<Rightarrow> nat list" where
  "case_lines item = map ar_line (cr_tests item)"

definition lines :: "world \<Rightarrow> nat list" where
  "lines s = concat (map (\<lambda>kv. case_lines (snd kv)) (stack s))"

text \<open>
  What a call of the assertion surface decides, or the error it throws before it
  reaches the recorder, and the message it hands to the recorder (lemma
  \<open>dispatch_recordTest\<close> below).
\<close>

fun verdict :: "host \<Rightarrow> call \<Rightarrow> exn + bool" where
  "verdict h (Assert arg m) = Inr (loose_equal h arg (Bool True))"
| "verdict h (AssertTrue arg m) = Inr (loose_equal h arg (Bool True))"
| "verdict h (AssertFalse arg m) = Inr (loose_equal h arg (Bool False))"
| "verdict h (AssertEquals a b m) = Inr (loose_equal h a b)"
| "verdict h (AssertNotEquals a b m) = Inr (\<not> loose_equal h a b)"
| "verdict h (AssertSame a b m) = Inr (strict_equal a b)"
| "verdict h (AssertNotSame a b m) = Inr (\<not> strict_equal a b)"
| "verdict h (AssertInArray a arr m) = member_of h arr a"
| "verdict h (AssertNotInArray a arr m) = map_sum id Not (member_of h arr a)"
| "verdict h (Pass m) = Inr True"
| "verdict h (Fail m) = Inr False"
| "verdict h (AssertEqual a b m) = Inr (loose_equal h a b)"
| "verdict h (AssertIdentical a b m) = Inr (strict_equal a b)"

fun label :: "copy \<Rightarrow> call \<Rightarrow> prim" where
  "label c (Assert arg m) =
     (if ToBoolean m then m
      else case c of Lib_Testify pst \<Rightarrow> Str ''Testify.assertTrue'' | Part_000 \<Rightarrow> Str ''Testify.assert'')"
| "label c (AssertTrue arg m) = or_else m (Str ''Testify.assertTrue'')"
| "label c (AssertFalse arg m) = or_else m (Str ''Testify.assertFalse'')"
| "label c (AssertEquals a b m) = or_else m (Str ''Testify.assertEquals'')"
| "label c (AssertNotEquals a b m) = or_else m (Str ''Testify.assertNotEquals'')"
| "label c (AssertSame a b m) = or_else m (Str ''Testify.assertSame'')"
| "label c (AssertNotSame a b m) = or_else m (Str ''Testify.assertNotSame'')"
| "label c (AssertInArray a arr m) = or_else m (Str ''Testify.assertInArray'')"
| "label c (AssertNotInArray a arr m) = or_else m (Str ''Testify.assertNotInArray'')"
| "label c (Pass m) = or_else m (Str ''Testify.pass'')"
| "label c (Fail m) = or_else m (Str ''Testify.fail'')"
| "label c (AssertEqual a b m) =
     (if ToBoolean m then m
      else case c of Lib_Testify pst \<Rightarrow> Str ''Testify.assertEquals'' | Part_000 \<Rightarrow> Str ''Testify.assertEqual'')"
| "label c (AssertIdentical a b m) = or_else m (Str ''Testify.assertIdentical'')"

subsection \<open>Properties kept by every operation\<close>

text \<open>
  \<open>kept h c P\<close>: the property \<open>P\<close> of a suite survives each elementary change that the
  operations of copy \<open>c\<close> make: a call of the assertion surface, the observation of a
  callback or of \<^verbatim>\<open>report\<close>, the change of the current case, the registration of a
  case with zero counters, the setting of a hook, and the push on the list of instances.
\<close>

definition kept :: "host \<Rightarrow> copy \<Rightarrow> (world \<Rightarrow> bool) \<Rightarrow> bool" where
  "kept h c P =
     ((\<forall>cl s. P s \<longrightarrow> P (snd (invoke h c cl s))) \<and>
      (\<forall>e s. P s \<longrightarrow> \<not> is_call e \<longrightarrow> P (s\<lparr> events := events s @ [e] \<rparr>)) \<and>
      (\<forall>n s. P s \<longrightarrow> P (s\<lparr> currentTestCase := n \<rparr>)) \<and>
      (\<forall>t s. P s \<longrightarrow> tc_pass t = 0 \<longrightarrow> tc_fail t = 0 \<longrightarrow> P (s\<lparr> tests := tests s @ [t] \<rparr>)) \<and>
      (\<forall>f s. P s \<longrightarrow> P (s\<lparr> before_hook := f \<rparr>)) \<and>
      (\<forall>f s. P s \<longrightarrow> P (s\<lparr> after_hook := f \<rparr>)) \<and>
      (\<forall>f s. P s \<longrightarrow> P (s\<lparr> beforeEach_hook := f \<rparr>)) \<and>
      (\<forall>f s. P s \<longrightarrow> P (s\<lparr> afterEach_hook := f \<rparr>)) \<and>
      (\<forall>s. P s \<longrightarrow> P (s\<lparr> instances := instances s @ [Suite_instance] \<rparr>)))"

text \<open>
  What holds of the three totals in every suite: the counters of the stack sum up to
  those of the suite, and they count calls that were made and got a sequence index.
\<close>

definition totals_bounded :: "world \<Rightarrow> bool" where
  "totals_bounded s =
     (stack_total s = results_total s \<and> results_total s \<le> testIndex s \<and>
      testIndex s \<le> assertion_calls s)"

text \<open>
  What holds of the indices in every suite: the recorded ones are distinct numbers among
  \<open>1, ..., testIndex\<close>, and the records of each case carry strictly increasing
  indices.
\<close>

definition indices_apart :: "world \<Rightarrow> bool" where
  "indices_apart s =
     (mset (lines s) \<subseteq># mset [1..<Suc (testIndex s)] \<and>
      list_all (\<lambda>kv. sorted_wrt (<) (case_lines (snd kv))) (stack s))"

text \<open>The counters of the registered cases are zero.\<close>

definition counters_zero :: "world \<Rightarrow> bool" where
  "counters_zero s = list_all (\<lambda>t. tc_pass t = 0 \<and> tc_fail t = 0) (tests s)"

subsection \<open>Scenarios and what a report shows of a suite\<close>

text \<open>
  A host for the closed examples below, none of which consults it: their strings and
  numbers are among those the model reads itself.
\<close>

definition bare_host :: host where
  "bare_host = \<lparr> number_of_string = (\<lambda>s. NaN), string_of_number = (\<lambda>n. []) \<rparr>"

text \<open>
  A body that calls \<^verbatim>\<open>assert(true)\<close> and then \<^verbatim>\<open>assert(false)\<close>. Each call is made on
  \<^verbatim>\<open>this\<close> (flag true) or on the first parameter (flag false), with a message.
\<close>

definition true_then_false :: "bool \<Rightarrow> bool \<Rightarrow> prim \<Rightarrow> prim \<Rightarrow> stmt list" where
  "true_then_false on_this1 on_this2 m1 m2 =
     [Invoke (if on_this1 then This else Param 0) (Assert (Bool True) m1),
      Invoke (if on_this2 then This else Param 0) (Assert (Bool False) m2)]"

text \<open>A body that calls \<^verbatim>\<open>this.pass()\<close> once.\<close>

definition passing :: "stmt list" where
  "passing = [Invoke This (Pass Undefined)]"

text \<open>
  One case is registered under the name of a member of \<^verbatim>\<open>Object.prototype\<close>, with a
  body that calls \<^verbatim>\<open>this.pass()\<close>, and the suite is run.
\<close>

definition inherited_name_run :: "op list" where
  "inherited_name_run = [Test (Prim (Str ''constructor'')) (Function 1 passing), Run]"

text \<open>
  Two cases are registered, the second under the name of a member of
  \<^verbatim>\<open>Object.prototype\<close>, each with a body that calls \<^verbatim>\<open>this.pass()\<close>; the suite is
  run twice by a caller who catches what \<^verbatim>\<open>run\<close> throws.
\<close>

definition inherited_name_calls :: "op list" where
  "inherited_name_calls =
     [Test (Prim (Str ''ok'')) (Function 1 passing),
      Test (Prim (Str ''constructor'')) (Function 2 passing),
      Run, Run]"

text \<open>The array of the repository's own test of \<^verbatim>\<open>assertInArray\<close>.\<close>

definition test_array :: "prim list" where
  "test_array = [Num (Fin 1), Num (Fin 2), Null, Bool False, Str ''1'', Str ''2'']"

text \<open>
  The counters of a suite: per entry of the stack its key, \<^verbatim>\<open>pass\<close>, \<^verbatim>\<open>fail\<close> and the
  outcome and sequence index of each record; and the pair of \<^verbatim>\<open>suiteResults\<close>.
\<close>

definition summary ::
  "world \<Rightarrow> (string \<times> nat \<times> nat \<times> (string \<times> nat) list) list \<times> (nat \<times> nat)" where
  "summary s =
     (map (\<lambda>kv. (fst kv, cr_pass (snd kv), cr_fail (snd kv),
                  map (\<lambda>r. (ar_result r, ar_line r)) (cr_tests (snd kv)))) (stack s),
      (sr_pass (suiteResults s), sr_fail (suiteResults s)))"

subsection \<open>Comparing the two copies\<close>

text \<open>A \<^verbatim>\<open>printStackTrace\<close> whose text is always empty.\<close>

definition no_trace :: "nat \<Rightarrow> string" where
  "no_trace n = []"

text \<open>
  Two messages are the same up to the defaults when they are equal, or the first is the
  default of \<^verbatim>\<open>assertTrue\<close> and the second that of \<^verbatim>\<open>assert\<close>, or the first is the
  default of \<^verbatim>\<open>assertEquals\<close> and the second that of \<^verbatim>\<open>assertEqual\<close>.
\<close>

definition same_message :: "prim \<Rightarrow> prim \<Rightarrow> bool" where
  "same_message m m' =
     (m = m' \<or>
      (m = Str ''Testify.assertTrue'' \<and> m' = Str ''Testify.assert'') \<or>
      (m = Str ''Testify.assertEquals'' \<and> m' = Str ''Testify.assertEqual''))"

text \<open>Two records that differ at most in the message, up to the defaults, and in the type.\<close>

definition same_record :: "assertion_record \<Rightarrow> assertion_record \<Rightarrow> bool" where
  "same_record r r' =
     (same_message (ar_name r) (ar_name r') \<and> ar_result r = ar_result r' \<and>
      ar_line r = ar_line r' \<and> ar_file r = ar_file r' \<and> ar_source r = ar_source r')"

definition same_case :: "string \<times> case_result \<Rightarrow> string \<times> case_result \<Rightarrow> bool" where
  "same_case kv kv' =
     (fst kv = fst kv' \<and> cr_name (snd kv) = cr_name (snd kv') \<and>
      cr_pass (snd kv) = cr_pass (snd kv') \<and> cr_fail (snd kv) = cr_fail (snd kv') \<and>
      list_all2 same_record (cr_tests (snd kv)) (cr_tests (snd kv')))"

text \<open>
  Two states of a suite that differ at most in the records, as above, and in the global
  list of instances.
\<close>

definition same_suite :: "world \<Rightarrow> world \<Rightarrow> bool" where
  "same_suite s s' =
     (testIndex s = testIndex s' \<and> tests s = tests s' \<and>
      list_all2 same_case (stack s) (stack s') \<and>
      fileCache s = fileCache s' \<and> currentTestCase s = currentTestCase s' \<and>
      suiteTitle s = suiteTitle s' \<and> suiteResults s = suiteResults s' \<and>
      before_hook s = before_hook s' \<and> after_hook s = after_hook s' \<and>
      beforeEach_hook s = beforeEach_hook s' \<and> afterEach_hook s = afterEach_hook s' \<and>
      data s = data s' \<and> isCLI_arg s = isCLI_arg s' \<and> events s = events s')"

text \<open>
  \<open>before_set_at_runs h xs s\<close>: along the calls \<open>xs\<close> made on the bundled copy from
  state \<open>s\<close>, a \<^verbatim>\<open>before\<close> hook is set whenever \<^verbatim>\<open>run\<close> is called.
\<close>

fun before_set_at_runs :: "host \<Rightarrow> op list \<Rightarrow> world \<Rightarrow> bool" where
  "before_set_at_runs h [] s = True"
| "before_set_at_runs h (x # xs) s =
     ((case x of Run \<Rightarrow> before_hook s \<noteq> Prim Null | _ \<Rightarrow> True) \<and>
      before_set_at_runs h xs (snd (step h Part_000 x s)))"

text \<open>Two results of a call: the same return value or error, and states as above.\<close>

definition agree :: "'a \<times> world \<Rightarrow> 'a \<times> world \<Rightarrow> bool" where
  "agree r r' = (fst r = fst r' \<and> same_suite (snd r) (snd r'))"

text \<open>
  A sample of calls: a \<^verbatim>\<open>before\<close> hook is set, a case that asserts once is registered,
  the suite is run, and an assertion is made directly.
\<close>

definition sample_calls :: "op list" where
  "sample_calls =
     [Before (Function 1 []),
      Test (Prim (Str ''case'')) (Function 2 [Invoke (Param 0) (Assert (Bool True) Undefined)]),
      Run,
      Do (AssertEqual (Num (Fin 1)) (Str ''1'') (Str ''one''))]"

subsection \<open>The order of a run\<close>

text \<open>The observed events other than calls of the assertion surface.\<close>

definition lifecycle :: "world \<Rightarrow> event list" where
  "lifecycle s = filter (\<lambda>e. \<not> is_call e) (events s)"

text \<open>
  The event of applying a hook or body to the suite as receiver and sole argument; a
  value that is no function is not applied.
\<close>

fun application :: "jsval \<Rightarrow> event list" where
  "application (Function i body) = [Applied i Suite_instance [Suite_instance]]"
| "application (Prim p) = []"

definition case_events :: "world \<Rightarrow> test_case \<Rightarrow> event list" where
  "case_events s t =
     application (beforeEach_hook s) @ application (tc_testCase t) @
     application (afterEach_hook s)"

definition run_events :: "world \<Rightarrow> event list" where
  "run_events s =
     application (before_hook s) @ concat (map (case_events s) (tests s)) @
     application (after_hook s) @ [Reported]"

text \<open>What the registration calls set, and the global list.\<close>

definition registered ::
  "world \<Rightarrow> test_case list \<times> jsval \<times> jsval \<times> jsval \<times> jsval \<times> ref list" where
  "registered s =
     (tests s, before_hook s, after_hook s, beforeEach_hook s, afterEach_hook s, instances s)"

text \<open>
  A statement that does not throw before it reaches the recorder: it calls the assertion
  surface on \<^verbatim>\<open>this\<close> or on the first parameter, and the call has a verdict. A quiet
  callback is a function of such statements.
\<close>

fun quiet_stmt :: "host \<Rightarrow> stmt \<Rightarrow> bool" where
  "quiet_stmt h (Invoke t cl) =
     ((t = This \<or> t = Param 0) \<and> (case verdict h cl of Inl e \<Rightarrow> False | Inr b \<Rightarrow> True))"
| "quiet_stmt h (Throw v) = False"

fun quiet :: "host \<Rightarrow> jsval \<Rightarrow> bool" where
  "quiet h (Function i body) = list_all (quiet_stmt h) body"
| "quiet h (Prim p) = False"

definition unset_or_quiet :: "host \<Rightarrow> jsval \<Rightarrow> bool" where
  "unset_or_quiet h f = (f = Prim Null \<or> quiet h f)"

text \<open>A case name whose key in the stack is not the name of an inherited member.\<close>

definition plain_name :: "host \<Rightarrow> prim \<Rightarrow> bool" where
  "plain_name h p = (\<not> inherited (ToString h p))"

text \<open>A new suite, for the closed examples.\<close>

definition sample_suite :: world where
  "sample_suite = Constructor (Str ''suite'') Undefined"

subsection \<open>The record and the entry that the recorder writes\<close>

definition new_record :: "copy \<Rightarrow> bool \<Rightarrow> prim \<Rightarrow> world \<Rightarrow> assertion_record" where
  "new_record c p m s =
     \<lparr> ar_name = or_else m
         (Str (case c of Lib_Testify pst \<Rightarrow> [] | Part_000 \<Rightarrow> ''Testify.recordTest'')),
       ar_type = (case c of Lib_Testify pst \<Rightarrow> pst (testIndex s) | Part_000 \<Rightarrow> []),
       ar_result = (if p then ''pass'' else ''fail''),
       ar_line = testIndex s + 1, ar_file = [], ar_source = [] \<rparr>"

definition new_entry :: "host \<Rightarrow> copy \<Rightarrow> bool \<Rightarrow> prim \<Rightarrow> world \<Rightarrow> case_result" where
  "new_entry h c p m s =
     increment_case (if p then ''pass'' else ''fail'')
       ((entry h s)\<lparr> cr_tests := cr_tests (entry h s) @ [new_record c p m s] \<rparr>)"

section \<open>Properties\<close>

subsection \<open>The recorder and the assertion surface\<close>

lemma map_of_put: "map_of (put k v ps) = (map_of ps)(k \<mapsto> v)"
  by (induction ps) (auto simp: fun_eq_iff)

lemma recordable_iff:
  "recordable h s =
     (map_of (stack s) (ToString h (currentTestCase s)) \<noteq> None \<or>
      \<not> inherited (ToString h (currentTestCase s)))"
  by (auto simp: recordable_def lookup_def split: option.splits)

lemma recordTest_inherited:
  "\<not> recordable h s \<Longrightarrow>
   recordTest h c p m s = (Inl TypeError, s\<lparr> testIndex := testIndex s + 1 \<rparr>)"
  by (auto simp: recordable_def recordTest_def Let_def split: property.splits)

lemma recordTest_fst: "recordable h s \<Longrightarrow> fst (recordTest h c p m s) = Inr p"
  by (auto simp: recordable_def recordTest_def Let_def split: property.splits)

lemma recordTest_recorded:
  "recordable h s \<Longrightarrow> recorded h p s (snd (recordTest h c p m s))"
  by (auto simp: recordable_def lookup_def recorded_def entry_def recordTest_def Let_def
      map_of_put increment_case_def increment_results_def
      split: option.splits property.splits if_splits)

lemma recordable_Constructor: "recordable h (Constructor title cli)"
  by (simp add: recordable_iff Constructor_def inherited_def)

text \<open>
  Every method of the assertion surface is one call of the recorder, unless it throws
  before.
\<close>

lemma dispatch_recordTest:
  "dispatch h c cl s =
     (case verdict h cl of
        Inl e \<Rightarrow> (Inl e, s)
      | Inr p \<Rightarrow> recordTest h c p (label c cl) s)"
  by (cases cl; cases c)
     (simp_all add: assert_def assertTrue_def assertFalse_def assertEquals_def
       assertNotEquals_def assertSame_def assertNotSame_def assertInArray_def
       assertNotInArray_def pass_def fail_def assertEqual_def assertIdentical_def
       or_else_def split: sum.splits)

lemma label_truthy: "ToBoolean (label c cl)"
  by (cases cl; cases c) (simp_all add: or_else_def)

lemma StringToNumber_empty: "StringToNumber h [] = Fin 0"
  by (simp add: StringToNumber_def trim_def)

lemma StringToNumber_yes: "StringToNumber h ''yes'' = NaN"
  by (simp add: StringToNumber_def trim_def is_white_def may_start_numeral_def)

text \<open>
  Claim C1. In both copies, in every state of a suite in which the read of the current
  case in the stack finds an own entry or nothing (so in a new suite, and during every
  case whose name is not that of a member of \<^verbatim>\<open>Object.prototype\<close>),
  \<^verbatim>\<open>assertEquals(0, "")\<close> and \<^verbatim>\<open>assertEquals(1, true)\<close> return \<^verbatim>\<open>true\<close> and record a
  pass, and \<^verbatim>\<open>assertSame(0, "")\<close> and \<^verbatim>\<open>assertSame(1, true)\<close> return \<^verbatim>\<open>false\<close> and
  record a fail, whatever the message.
\<close>

theorem assertEquals_coercive_assertSame_strict:
  assumes "recordable h s"
  shows "fst (assertEquals h c (Num (Fin 0)) (Str []) m s) = Inr True \<and>
     recorded h True s (snd (assertEquals h c (Num (Fin 0)) (Str []) m s)) \<and>
     fst (assertEquals h c (Num (Fin 1)) (Bool True) m s) = Inr True \<and>
     recorded h True s (snd (assertEquals h c (Num (Fin 1)) (Bool True) m s)) \<and>
     fst (assertSame h c (Num (Fin 0)) (Str []) m s) = Inr False \<and>
     recorded h False s (snd (assertSame h c (Num (Fin 0)) (Str []) m s)) \<and>
     fst (assertSame h c (Num (Fin 1)) (Bool True) m s) = Inr False \<and>
     recorded h False s (snd (assertSame h c (Num (Fin 1)) (Bool True) m s))"
proof -
  have zero: "loose_equal h (Num (Fin 0)) (Str [])"
    by (simp add: StringToNumber_empty)
  have one: "loose_equal h (Num (Fin 1)) (Bool True)"
    by (simp add: bool_number_def)
  have eq0: "assertEquals h c (Num (Fin 0)) (Str []) m s =
      recordTest h c True (or_else m (Str ''Testify.assertEquals'')) s"
    using zero by (simp add: assertEquals_def)
  have eq1: "assertEquals h c (Num (Fin 1)) (Bool True) m s =
      recordTest h c True (or_else m (Str ''Testify.assertEquals'')) s"
    using one by (simp add: assertEquals_def)
  have same0: "assertSame h c (Num (Fin 0)) (Str []) m s =
      recordTest h c False (or_else m (Str ''Testify.assertSame'')) s"
    by (simp add: assertSame_def)
  have same1: "assertSame h c (Num (Fin 1)) (Bool True) m s =
      recordTest h c False (or_else m (Str ''Testify.assertSame'')) s"
    by (simp add: assertSame_def)
  show ?thesis
    unfolding eq0 eq1 same0 same1
    using recordTest_recorded [OF assms, of True c] recordTest_recorded [OF assms, of False c]
    by (simp add: recordTest_fst [OF assms])
qed

theorem assertEquals_assertSame_witness:
  "recordable bare_host sample_suite \<and>
   fst (assertEquals bare_host Part_000 (Num (Fin 0)) (Str []) Undefined sample_suite) = Inr True \<and>
   fst (assertEquals bare_host Part_000 (Num (Fin 1)) (Bool True) Undefined sample_suite) = Inr True \<and>
   fst (assertSame bare_host Part_000 (Num (Fin 0)) (Str []) Undefined sample_suite) = Inr False \<and>
   fst (assertSame bare_host Part_000 (Num (Fin 1)) (Bool True) Undefined sample_suite) = Inr False \<and>
   summary (snd (assertEquals bare_host Part_000 (Num (Fin 0)) (Str []) Undefined sample_suite)) =
     ([(''null'', 1, 0, [(''pass'', 1)])], (1, 0)) \<and>
   summary (snd (assertSame bare_host Part_000 (Num (Fin 0)) (Str []) Undefined sample_suite)) =
     ([(''null'', 0, 1, [(''fail'', 1)])], (0, 1))"
proof -
  have new: "recordable bare_host sample_suite"
    unfolding sample_suite_def by (rule recordable_Constructor)
  have shown: "summary (snd (assertEquals bare_host Part_000 (Num (Fin 0)) (Str []) Undefined
        sample_suite)) = ([(''null'', 1, 0, [(''pass'', 1)])], (1, 0))"
    "summary (snd (assertSame bare_host Part_000 (Num (Fin 0)) (Str []) Undefined
        sample_suite)) = ([(''null'', 0, 1, [(''fail'', 1)])], (0, 1))"
    by (simp_all add: summary_def sample_suite_def Constructor_def assertEquals_def
        assertSame_def recordTest_def lookup_def inherited_def Let_def StringToNumber_empty
        increment_case_def increment_results_def)
  show ?thesis
    using new shown
      assertEquals_coercive_assertSame_strict [OF new, of Part_000 Undefined]
    by simp
qed

text \<open>
  Claim C10. The predicate of \<^verbatim>\<open>assertTrue\<close> and of its alias \<^verbatim>\<open>assert\<close> is
  \<^verbatim>\<open>arg == true\<close>, and that of \<^verbatim>\<open>assertFalse\<close> is \<^verbatim>\<open>arg == false\<close>: in every state in
  which the read of the current case finds an own entry or nothing, each returns the
  value of its comparison and records it. The values \<open>2\<close> and \<^verbatim>\<open>"yes"\<close> are truthy and
  not equal to \<^verbatim>\<open>true\<close>, so \<^verbatim>\<open>assertTrue(2)\<close>, \<^verbatim>\<open>assertTrue("yes")\<close> and \<^verbatim>\<open>assert(2)\<close>
  return \<^verbatim>\<open>false\<close> and record a fail; the empty string is not the value \<^verbatim>\<open>false\<close> and
  is equal to it, so \<^verbatim>\<open>assertFalse("")\<close> returns \<^verbatim>\<open>true\<close> and records a pass.
\<close>

theorem assertTrue_compares_with_true:
  assumes "recordable h s"
  shows "fst (assertTrue h c arg m s) = Inr (loose_equal h arg (Bool True)) \<and>
     fst (assert h c arg m s) = Inr (loose_equal h arg (Bool True)) \<and>
     fst (assertFalse h c arg m s) = Inr (loose_equal h arg (Bool False)) \<and>
     recorded h (loose_equal h arg (Bool True)) s (snd (assertTrue h c arg m s)) \<and>
     recorded h (loose_equal h arg (Bool True)) s (snd (assert h c arg m s)) \<and>
     recorded h (loose_equal h arg (Bool False)) s (snd (assertFalse h c arg m s)) \<and>
     ToBoolean (Num (Fin 2)) \<and> \<not> loose_equal h (Num (Fin 2)) (Bool True) \<and>
     ToBoolean (Str ''yes'') \<and> \<not> loose_equal h (Str ''yes'') (Bool True) \<and>
     \<not> strict_equal (Str []) (Bool False) \<and> loose_equal h (Str []) (Bool False) \<and>
     fst (assertTrue h c (Num (Fin 2)) m s) = Inr False \<and>
     recorded h False s (snd (assertTrue h c (Num (Fin 2)) m s)) \<and>
     fst (assertTrue h c (Str ''yes'') m s) = Inr False \<and>
     recorded h False s (snd (assertTrue h c (Str ''yes'') m s)) \<and>
     fst (assert h c (Num (Fin 2)) m s) = Inr False \<and>
     recorded h False s (snd (assert h c (Num (Fin 2)) m s)) \<and>
     fst (assertFalse h c (Str []) m s) = Inr True \<and>
     recorded h True s (snd (assertFalse h c (Str []) m s))"
proof -
  have calls:
    "assertTrue h c a m s = dispatch h c (AssertTrue a m) s"
    "assert h c a m s = dispatch h c (Assert a m) s"
    "assertFalse h c a m s = dispatch h c (AssertFalse a m) s" for a
    by simp_all
  have facts:
    "ToBoolean (Num (Fin 2))" "\<not> loose_equal h (Num (Fin 2)) (Bool True)"
    "ToBoolean (Str ''yes'')" "\<not> loose_equal h (Str ''yes'') (Bool True)"
    "\<not> strict_equal (Str []) (Bool False)" "loose_equal h (Str []) (Bool False)"
    by (simp_all add: bool_number_def StringToNumber_yes StringToNumber_empty)
  show ?thesis
    unfolding calls dispatch_recordTest
    using facts recordTest_recorded [OF assms, of _ c]
    by (simp add: recordTest_fst [OF assms])
qed

theorem assertTrue_compares_witness:
  "recordable bare_host sample_suite \<and>
   fst (assertTrue bare_host Part_000 (Num (Fin 2)) Undefined sample_suite) = Inr False \<and>
   fst (assertTrue bare_host Part_000 (Str ''yes'') Undefined sample_suite) = Inr False \<and>
   fst (assert bare_host Part_000 (Num (Fin 2)) Undefined sample_suite) = Inr False \<and>
   fst (assertFalse bare_host Part_000 (Str []) Undefined sample_suite) = Inr True \<and>
   summary (snd (assertTrue bare_host Part_000 (Str ''yes'') Undefined sample_suite)) =
     ([(''null'', 0, 1, [(''fail'', 1)])], (0, 1)) \<and>
   summary (snd (assertFalse bare_host Part_000 (Str []) Undefined sample_suite)) =
     ([(''null'', 1, 0, [(''pass'', 1)])], (1, 0))"
proof -
  have new: "recordable bare_host sample_suite"
    unfolding sample_suite_def by (rule recordable_Constructor)
  have shown: "summary (snd (assertTrue bare_host Part_000 (Str ''yes'') Undefined
        sample_suite)) = ([(''null'', 0, 1, [(''fail'', 1)])], (0, 1))"
    "summary (snd (assertFalse bare_host Part_000 (Str []) Undefined sample_suite)) =
      ([(''null'', 1, 0, [(''pass'', 1)])], (1, 0))"
    by (simp_all add: summary_def sample_suite_def Constructor_def assertTrue_def
        assertFalse_def recordTest_def lookup_def inherited_def Let_def StringToNumber_empty
        StringToNumber_yes bool_number_def increment_case_def increment_results_def)
  show ?thesis
    using new shown
      assertTrue_compares_with_true [OF new, of Part_000 Undefined Undefined]
    by simp
qed

subsection \<open>Membership in an array\<close>

lemma indexOf_from_scan:
  "indexOf_from i arr v =
     (if list_ex (\<lambda>x. strict_equal x v) arr
      then i + int (length (takeWhile (\<lambda>x. \<not> strict_equal x v) arr))
      else - 1)"
  by (induction arr arbitrary: i) auto

lemma indexOf_found: "(indexOf arr v > - 1) = list_ex (\<lambda>x. strict_equal x v) arr"
  by (simp add: indexOf_def indexOf_from_scan)

text \<open>
  On an array, \<^verbatim>\<open>assertInArray\<close> scans from the left with \<^verbatim>\<open>===\<close>: where it records,
  it returns \<^verbatim>\<open>true\<close> and records a pass exactly when some element is strictly equal to
  the argument.
\<close>

lemma assertInArray_strict_scan:
  assumes "recordable h s"
  shows "fst (assertInArray h c arg (Array arr) m s) =
       Inr (list_ex (\<lambda>x. strict_equal x arg) arr) \<and>
     recorded h (list_ex (\<lambda>x. strict_equal x arg) arr) s
       (snd (assertInArray h c arg (Array arr) m s))"
  using recordTest_recorded [OF assms, of _ c]
  by (simp add: assertInArray_def indexOf_found recordTest_fst [OF assms])

text \<open>
  Claim C7, where the code departs from it. In a new suite of either copy,
  \<^verbatim>\<open>assertInArray(0, [false])\<close> returns \<^verbatim>\<open>false\<close> and records a fail, although
  \<^verbatim>\<open>0 == false\<close> holds: the scan of \<^verbatim>\<open>indexOf\<close> compares with \<^verbatim>\<open>===\<close>. The same goes for
  the two calls that the repository's own test expects to pass, \<^verbatim>\<open>assertInArray(0, arr)\<close>
  and \<^verbatim>\<open>assertInArray(true, arr)\<close> with \<^verbatim>\<open>arr = [1, 2, null, false, "1", "2"]\<close>, where
  \<^verbatim>\<open>0 == false\<close> and \<^verbatim>\<open>true == 1\<close> hold. And \<^verbatim>\<open>assertInArray(false, [0])\<close> returns
  \<^verbatim>\<open>false\<close> and records a fail.
\<close>

theorem assertInArray_zero_in_false_fails:
  "loose_equal h (Num (Fin 0)) (Bool False) \<and> \<not> strict_equal (Bool False) (Num (Fin 0)) \<and>
   fst (assertInArray h c (Num (Fin 0)) (Array [Bool False]) m (Constructor title cli)) =
     Inr False \<and>
   recorded h False (Constructor title cli)
     (snd (assertInArray h c (Num (Fin 0)) (Array [Bool False]) m (Constructor title cli))) \<and>
   list_ex (loose_equal h (Num (Fin 0))) test_array \<and>
   fst (assertInArray h c (Num (Fin 0)) (Array test_array) m (Constructor title cli)) =
     Inr False \<and>
   list_ex (loose_equal h (Bool True)) test_array \<and>
   fst (assertInArray h c (Bool True) (Array test_array) m (Constructor title cli)) =
     Inr False \<and>
   fst (assertInArray h c (Bool False) (Array [Num (Fin 0)]) m (Constructor title cli)) =
     Inr False \<and>
   recorded h False (Constructor title cli)
     (snd (assertInArray h c (Bool False) (Array [Num (Fin 0)]) m (Constructor title cli)))"
proof -
  have new: "recordable h (Constructor title cli)"
    by (rule recordable_Constructor)
  have coercive: "loose_equal h (Num (Fin 0)) (Bool False)"
    "\<not> strict_equal (Bool False) (Num (Fin 0))"
    "list_ex (loose_equal h (Num (Fin 0))) test_array"
    "list_ex (loose_equal h (Bool True)) test_array"
    by (simp_all add: test_array_def bool_number_def)
  have absent: "\<not> list_ex (\<lambda>x. strict_equal x (Num (Fin 0))) [Bool False]"
    "\<not> list_ex (\<lambda>x. strict_equal x (Num (Fin 0))) test_array"
    "\<not> list_ex (\<lambda>x. strict_equal x (Bool True)) test_array"
    "\<not> list_ex (\<lambda>x. strict_equal x (Bool False)) [Num (Fin 0)]"
    by (simp_all add: test_array_def)
  show ?thesis
    using coercive absent
      assertInArray_strict_scan [OF new, of c "Num (Fin 0)" "[Bool False]" m]
      assertInArray_strict_scan [OF new, of c "Num (Fin 0)" test_array m]
      assertInArray_strict_scan [OF new, of c "Bool True" test_array m]
      assertInArray_strict_scan [OF new, of c "Bool False" "[Num (Fin 0)]" m]
    by simp
qed

subsection \<open>Properties kept by every operation\<close>

lemma kept_invoke: "kept h c P \<Longrightarrow> P s \<Longrightarrow> P (snd (invoke h c cl s))"
  by (simp add: kept_def)

lemma kept_exec_stmt: "kept h c P \<Longrightarrow> P s \<Longrightarrow> P (snd (exec_stmt h c thisArg args st s))"
proof (cases st)
  case (Throw v)
  assume "P s"
  with Throw show ?thesis by simp
next
  case (Invoke t cl)
  assume "kept h c P" and "P s"
  then have "P (snd (invoke h c cl s))" by (rule kept_invoke)
  with \<open>P s\<close> Invoke show ?thesis
    by (cases "invoke h c cl s") (auto split: option.splits ref.splits sum.splits)
qed

lemma kept_exec_body: "kept h c P \<Longrightarrow> P s \<Longrightarrow> P (snd (exec_body h c thisArg args sts s))"
proof (induction sts arbitrary: s)
  case Nil
  then show ?case by simp
next
  case (Cons st sts)
  have step: "P (snd (exec_stmt h c thisArg args st s))"
    using Cons.prems by (rule kept_exec_stmt)
  show ?case
  proof (cases "exec_stmt h c thisArg args st s")
    case (Pair r s')
    with step have "P s'" by simp
    with Cons.IH [OF Cons.prems(1)] Pair show ?thesis
      by (cases r) simp_all
  qed
qed

lemma kept_apply_fn: "kept h c P \<Longrightarrow> P s \<Longrightarrow> P (snd (apply_fn h c f thisArg args s))"
proof (cases f)
  case (Prim p)
  assume "P s"
  with Prim show ?thesis by simp
next
  case (Function i body)
  assume k: "kept h c P" and "P s"
  then have "P (s\<lparr> events := events s @ [Applied i thisArg args] \<rparr>)"
    by (simp add: kept_def)
  with k Function show ?thesis
    by (simp add: kept_exec_body)
qed

lemma kept_apply_hook: "kept h c P \<Longrightarrow> P s \<Longrightarrow> P (snd (apply_hook h c g f arr s))"
  by (auto simp: apply_hook_def kept_apply_fn split: sum.splits)

lemma kept_run_cases: "kept h c P \<Longrightarrow> P s \<Longrightarrow> P (snd (run_cases h c arr ts s))"
proof (induction ts arbitrary: s)
  case Nil
  then show ?case by simp
next
  case (Cons t ts)
  let ?s0 = "s\<lparr> currentTestCase := tc_name t \<rparr>"
  have k: "kept h c P" by (rule Cons.prems(1))
  have p0: "P ?s0"
    using Cons.prems by (simp add: kept_def)
  obtain r1 s1 where e1: "apply_hook h c True (beforeEach_hook ?s0) arr ?s0 = (r1, s1)"
    by (cases "apply_hook h c True (beforeEach_hook ?s0) arr ?s0")
  have p1: "P s1"
    using kept_apply_hook [OF k p0, of True "beforeEach_hook ?s0" arr] e1 by simp
  obtain r2 s2 where e2: "apply_fn h c (tc_testCase t) Suite_instance arr s1 = (r2, s2)"
    by (cases "apply_fn h c (tc_testCase t) Suite_instance arr s1")
  have p2: "P s2"
    using kept_apply_fn [OF k p1, of "tc_testCase t" Suite_instance arr] e2 by simp
  obtain r3 s3 where e3: "apply_hook h c True (afterEach_hook s2) arr s2 = (r3, s3)"
    by (cases "apply_hook h c True (afterEach_hook s2) arr s2")
  have p3: "P s3"
    using kept_apply_hook [OF k p2, of True "afterEach_hook s2" arr] e3 by simp
  have p4: "P (snd (run_cases h c arr ts s3))"
    using k p3 by (rule Cons.IH)
  show ?case
    using e1 e2 e3 p1 p2 p3 p4
    by (cases r1; cases r2; cases r3) (simp_all add: Let_def)
qed

lemma kept_report: "kept h c P \<Longrightarrow> P s \<Longrightarrow> P (snd (report s))"
  by (simp add: report_def Let_def kept_def)

lemma kept_run: "kept h c P \<Longrightarrow> P s \<Longrightarrow> P (snd (run h c s))"
proof -
  assume k: "kept h c P" and p: "P s"
  let ?g = "case c of Lib_Testify pst \<Rightarrow> False | Part_000 \<Rightarrow> True"
  obtain r1 s1 where e1: "apply_hook h c ?g (before_hook s) [Suite_instance] s = (r1, s1)"
    by (cases "apply_hook h c ?g (before_hook s) [Suite_instance] s")
  have p1: "P s1"
    using kept_apply_hook [OF k p, of ?g "before_hook s" "[Suite_instance]"] e1 by simp
  obtain r2 s2 where e2: "run_cases h c [Suite_instance] (tests s1) s1 = (r2, s2)"
    by (cases "run_cases h c [Suite_instance] (tests s1) s1")
  have p2: "P s2"
    using kept_run_cases [OF k p1, of "[Suite_instance]" "tests s1"] e2 by simp
  obtain r3 s3 where e3: "apply_hook h c True (after_hook s2) [Suite_instance] s2 = (r3, s3)"
    by (cases "apply_hook h c True (after_hook s2) [Suite_instance] s2")
  have p3: "P s3"
    using kept_apply_hook [OF k p2, of True "after_hook s2" "[Suite_instance]"] e3 by simp
  obtain r4 s4 where e4: "report s3 = (r4, s4)"
    by (cases "report s3")
  have p4: "P s4"
    using kept_report [OF k p3] e4 by simp
  have p5: "P (s4\<lparr> instances := instances s4 @ [Suite_instance] \<rparr>)"
    using k p4 by (simp add: kept_def)
  show ?thesis
    using e1 e2 e3 e4 p1 p2 p3 p4 p5
    by (cases r1; cases r2; cases r3; cases r4; cases c) (simp_all add: run_def Let_def)
qed

lemma kept_test: "kept h c P \<Longrightarrow> P s \<Longrightarrow> P (snd (test name testCase s))"
  by (auto simp: test_def Let_def kept_def split: sum.splits)

lemma kept_hooks:
  assumes "kept h c P" and "P s"
  shows "P (snd (before f s))" and "P (snd (after f s))"
    and "P (snd (beforeEach f s))" and "P (snd (afterEach f s))"
  using assms
  by (auto simp: before_def after_def beforeEach_def afterEach_def kept_def split: sum.splits)

lemma snd_returning: "snd (returning f r) = snd r"
  by (cases r) (simp add: returning_def split: sum.splits)

lemma kept_step: "kept h c P \<Longrightarrow> P s \<Longrightarrow> P (snd (step h c x s))"
  by (cases x)
     (simp_all add: snd_returning kept_test kept_hooks kept_run kept_report kept_invoke)

lemma kept_steps: "kept h c P \<Longrightarrow> P s \<Longrightarrow> P (steps h c xs s)"
  by (induction xs arbitrary: s) (simp_all add: kept_step)

subsection \<open>The state after a call of the assertion surface\<close>

lemma recordTest_recordable:
  "recordable h s \<Longrightarrow>
   recordTest h c p m s =
     (Inr p,
      s\<lparr> testIndex := testIndex s + 1,
         stack := put (ToString h (currentTestCase s)) (new_entry h c p m s) (stack s),
         suiteResults := increment_results (if p then ''pass'' else ''fail'') (suiteResults s) \<rparr>)"
  by (auto simp: recordable_def lookup_def recordTest_def Let_def entry_def new_entry_def
      new_record_def split: option.splits property.splits if_splits)

lemma invoke_cases:
  "invoke h c cl s =
     (case verdict h cl of
        Inl e \<Rightarrow> (Inl e, s\<lparr> events := events s @ [Called cl] \<rparr>)
      | Inr p \<Rightarrow> recordTest h c p (label c cl) (s\<lparr> events := events s @ [Called cl] \<rparr>))"
  by (simp add: invoke_def dispatch_recordTest)

lemma recordTest_events: "events (snd (recordTest h c p m s)) = events s"
  by (cases "recordable h s") (simp_all add: recordTest_recordable recordTest_inherited)

lemma recordTest_testIndex: "testIndex (snd (recordTest h c p m s)) = testIndex s + 1"
  by (cases "recordable h s") (simp_all add: recordTest_recordable recordTest_inherited)

lemma recordTest_tests: "tests (snd (recordTest h c p m s)) = tests s"
  by (cases "recordable h s") (simp_all add: recordTest_recordable recordTest_inherited)

lemma recordTest_currentTestCase:
  "currentTestCase (snd (recordTest h c p m s)) = currentTestCase s"
  by (cases "recordable h s") (simp_all add: recordTest_recordable recordTest_inherited)

lemma sum_put:
  assumes "g z = (0 :: nat)"
  shows "(\<Sum>kv\<leftarrow>put k v ps. g (snd kv)) + g (case map_of ps k of None \<Rightarrow> z | Some it \<Rightarrow> it) =
     (\<Sum>kv\<leftarrow>ps. g (snd kv)) + g v"
  using assms by (induction ps) (auto split: if_splits)

lemma mset_lines_put:
  assumes "case_lines z = []"
  shows "mset (concat (map (\<lambda>kv. case_lines (snd kv)) (put k v ps))) +
       mset (case_lines (case map_of ps k of None \<Rightarrow> z | Some it \<Rightarrow> it)) =
     mset (concat (map (\<lambda>kv. case_lines (snd kv)) ps)) + mset (case_lines v)"
  using assms by (induction ps) (auto split: if_splits)

lemma new_entry_total:
  "cr_pass (new_entry h c p m s) + cr_fail (new_entry h c p m s) =
     cr_pass (entry h s) + cr_fail (entry h s) + 1"
  by (simp add: new_entry_def increment_case_def)

lemma new_entry_lines:
  "case_lines (new_entry h c p m s) = case_lines (entry h s) @ [testIndex s + 1]"
  by (simp add: new_entry_def increment_case_def case_lines_def new_record_def)

lemma recordTest_stack_total:
  "stack_total (snd (recordTest h c p m s)) = stack_total s + (if recordable h s then 1 else 0)"
proof (cases "recordable h s")
  case False
  then show ?thesis
    by (simp add: recordTest_inherited stack_total_def)
next
  case True
  let ?g = "\<lambda>item. cr_pass item + cr_fail item"
  let ?z = "\<lparr> cr_name = currentTestCase s, cr_tests = [], cr_pass = 0, cr_fail = 0 \<rparr>"
  have "?g ?z = 0" by simp
  from sum_put [of ?g ?z, OF this, of "ToString h (currentTestCase s)" "new_entry h c p m s" "stack s"]
  have "stack_total (snd (recordTest h c p m s)) + ?g (entry h s) =
      stack_total s + ?g (new_entry h c p m s)"
    using True by (simp add: recordTest_recordable stack_total_def entry_def)
  then show ?thesis
    using True new_entry_total [of h c p m s] by simp
qed

lemma recordTest_results_total:
  "results_total (snd (recordTest h c p m s)) =
     results_total s + (if recordable h s then 1 else 0)"
  by (cases "recordable h s")
     (simp_all add: recordTest_recordable recordTest_inherited results_total_def
        increment_results_def)

lemma recordTest_lines:
  "mset (lines (snd (recordTest h c p m s))) =
     (if recordable h s then add_mset (testIndex s + 1) (mset (lines s)) else mset (lines s))"
proof (cases "recordable h s")
  case False
  then show ?thesis
    by (simp add: recordTest_inherited lines_def)
next
  case True
  let ?z = "\<lparr> cr_name = currentTestCase s, cr_tests = [], cr_pass = 0, cr_fail = 0 \<rparr>"
  have "case_lines ?z = []" by (simp add: case_lines_def)
  from mset_lines_put [of ?z, OF this, of "ToString h (currentTestCase s)"
      "new_entry h c p m s" "stack s"]
  have "mset (lines (snd (recordTest h c p m s))) + mset (case_lines (entry h s)) =
      mset (lines s) + mset (case_lines (new_entry h c p m s))"
    using True by (simp add: recordTest_recordable lines_def entry_def)
  then show ?thesis
    using True by (simp add: new_entry_lines)
qed

subsection \<open>What holds of the totals in every suite\<close>

lemma invoke_totals_bounded:
  assumes "totals_bounded s"
  shows "totals_bounded (snd (invoke h c cl s))"
proof -
  let ?s0 = "s\<lparr> events := events s @ [Called cl] \<rparr>"
  have s0: "stack_total ?s0 = stack_total s" "results_total ?s0 = results_total s"
    "testIndex ?s0 = testIndex s" "assertion_calls ?s0 = assertion_calls s + 1"
    by (simp_all add: stack_total_def results_total_def assertion_calls_def)
  show ?thesis
  proof (cases "verdict h cl")
    case (Inl e)
    then show ?thesis
      using assms s0 by (simp add: invoke_cases totals_bounded_def)
  next
    case (Inr p)
    have "assertion_calls (snd (recordTest h c p (label c cl) ?s0)) = assertion_calls ?s0"
      unfolding assertion_calls_def by (simp only: recordTest_events)
    then show ?thesis
      using assms s0 Inr
      by (simp add: invoke_cases totals_bounded_def recordTest_stack_total
          recordTest_results_total recordTest_testIndex)
  qed
qed

lemma kept_totals_bounded: "kept h c totals_bounded"
  unfolding kept_def
proof (intro conjI allI impI)
  fix cl s assume "totals_bounded s"
  then show "totals_bounded (snd (invoke h c cl s))" by (rule invoke_totals_bounded)
qed (simp_all add: totals_bounded_def stack_total_def results_total_def assertion_calls_def)

lemma Constructor_totals_bounded: "totals_bounded (Constructor title cli)"
  by (simp add: totals_bounded_def Constructor_def stack_total_def results_total_def
      assertion_calls_def)

subsection \<open>What holds of the indices in every suite\<close>

lemma list_all_put:
  "list_all Q ps \<Longrightarrow> Q (k, v) \<Longrightarrow> list_all Q (put k v ps)"
  by (induction ps) auto

lemma entry_lines_in_lines: "set (case_lines (entry h s)) \<subseteq> set (lines s)"
  by (auto simp: entry_def lines_def case_lines_def split: option.splits dest!: map_of_SomeD)

lemma entry_sorted:
  "list_all (\<lambda>kv. sorted_wrt (<) (case_lines (snd kv))) (stack s) \<Longrightarrow>
   sorted_wrt (<) (case_lines (entry h s))"
  by (auto simp: entry_def list_all_iff case_lines_def split: option.splits dest!: map_of_SomeD)

lemma recordTest_indices_apart:
  assumes "indices_apart s"
  shows "indices_apart (snd (recordTest h c p m s))"
proof (cases "recordable h s")
  case False
  have "mset [1..<Suc (testIndex s)] \<subseteq># mset [1..<Suc (Suc (testIndex s))]"
    by simp
  with assms have "mset (lines s) \<subseteq># mset [1..<Suc (Suc (testIndex s))]"
    unfolding indices_apart_def by (meson subset_mset.order_trans)
  with assms False show ?thesis
    by (simp add: recordTest_inherited indices_apart_def lines_def)
next
  case True
  let ?n = "testIndex s"
  let ?s' = "snd (recordTest h c p m s)"
  have dense: "mset (lines s) \<subseteq># mset [1..<Suc ?n]"
    and sorted: "list_all (\<lambda>kv. sorted_wrt (<) (case_lines (snd kv))) (stack s)"
    using assms by (simp_all add: indices_apart_def)
  have bound: "\<forall>x \<in> set (lines s). x < Suc ?n"
  proof
    fix x assume "x \<in> set (lines s)"
    then have "x \<in># mset (lines s)" by simp
    with dense have "x \<in># mset [1..<Suc ?n]" by (meson mset_subset_eqD)
    then have "x \<in> set [1..<Suc ?n]" by simp
    then show "x < Suc ?n" by auto
  qed
  have "sorted_wrt (<) (case_lines (entry h s) @ [Suc ?n])"
    using entry_sorted [OF sorted, of h] entry_lines_in_lines [of h s] bound
    by (auto simp: sorted_wrt_append)
  then have new_sorted: "sorted_wrt (<) (case_lines (new_entry h c p m s))"
    by (simp add: new_entry_lines)
  have stack': "stack ?s' = put (ToString h (currentTestCase s)) (new_entry h c p m s) (stack s)"
    using True by (simp add: recordTest_recordable)
  have "list_all (\<lambda>kv. sorted_wrt (<) (case_lines (snd kv))) (stack ?s')"
    unfolding stack' using sorted new_sorted by (intro list_all_put) simp_all
  moreover have "mset (lines ?s') \<subseteq># mset [1..<Suc (testIndex ?s')]"
    using dense True by (simp add: recordTest_lines recordTest_testIndex)
  ultimately show ?thesis
    by (simp add: indices_apart_def)
qed

lemma kept_indices_apart: "kept h c indices_apart"
  unfolding kept_def
proof (intro conjI allI impI)
  fix cl s assume "indices_apart s"
  then have "indices_apart (s\<lparr> events := events s @ [Called cl] \<rparr>)"
    by (simp add: indices_apart_def lines_def)
  then show "indices_apart (snd (invoke h c cl s))"
    by (cases "verdict h cl") (simp_all add: invoke_cases recordTest_indices_apart)
qed (simp_all add: indices_apart_def lines_def)

lemma Constructor_indices_apart: "indices_apart (Constructor title cli)"
  by (simp add: indices_apart_def Constructor_def lines_def)

subsection \<open>The counters of the registered cases\<close>

lemma kept_counters_zero: "kept h c counters_zero"
  unfolding kept_def
proof (intro conjI allI impI)
  fix cl s assume "counters_zero s"
  then show "counters_zero (snd (invoke h c cl s))"
    by (cases "verdict h cl") (simp_all add: invoke_cases counters_zero_def recordTest_tests)
qed (simp_all add: counters_zero_def)

lemma Constructor_counters_zero: "counters_zero (Constructor title cli)"
  by (simp add: counters_zero_def Constructor_def)

subsection \<open>Suites reached from the constructor\<close>

lemmas run_one_case_defs =
  test_def isCallable_def affirmCallable_def Constructor_def run_def
  apply_hook_def returning_def resolve_def invoke_def assert_def assertTrue_def pass_def
  recordTest_def lookup_def Let_def report_def increment_case_def
  increment_results_def bool_number_def true_then_false_def passing_def summary_def

lemmas run_scenario_defs = run_one_case_defs inherited_def

text \<open>
  What holds of the totals. Take a new suite of either copy and any sequence of
  registrations, hook settings, direct assertion calls, runs and reports, each call
  going on from the state its predecessor left, whether it returned or threw. Then the
  sum of \<^verbatim>\<open>pass + fail\<close> over the entries of the stack equals
  \<^verbatim>\<open>suiteResults.pass + suiteResults.fail\<close>; this total is at most \<^verbatim>\<open>testIndex\<close>, which
  is at most the number of calls of the assertion surface made so far.
\<close>

lemma totals_of_reachable_suite:
  "stack_total (steps h c xs (Constructor title cli)) =
     results_total (steps h c xs (Constructor title cli)) \<and>
   results_total (steps h c xs (Constructor title cli)) \<le>
     testIndex (steps h c xs (Constructor title cli)) \<and>
   testIndex (steps h c xs (Constructor title cli)) \<le>
     assertion_calls (steps h c xs (Constructor title cli))"
proof -
  have "totals_bounded (steps h c xs (Constructor title cli))"
    using kept_totals_bounded Constructor_totals_bounded by (rule kept_steps)
  then show ?thesis
    by (simp add: totals_bounded_def)
qed

text \<open>
  Claim C3, where the code departs from it. A case is registered under the name
  \<^verbatim>\<open>constructor\<close> with a body that calls \<^verbatim>\<open>this.pass()\<close>, and the suite is run.
  Registration returns the suite; \<^verbatim>\<open>run\<close> throws a \<^verbatim>\<open>TypeError\<close>, out of
  \<^verbatim>\<open>recordTest\<close>. One call of the assertion surface was made and \<^verbatim>\<open>testIndex\<close> is 1,
  but the stack is empty and \<^verbatim>\<open>suiteResults\<close> is \<^verbatim>\<open>{pass: 0, fail: 0}\<close>: the totals are
  0, not the number of assertion calls made.
\<close>

theorem totals_behind_calls_made:
  "outcomes h Part_000 inherited_name_run (Constructor title cli) =
     [Inr (Reference Suite_instance), Inl TypeError] \<and>
   assertion_calls (steps h Part_000 inherited_name_run (Constructor title cli)) = 1 \<and>
   testIndex (steps h Part_000 inherited_name_run (Constructor title cli)) = 1 \<and>
   stack (steps h Part_000 inherited_name_run (Constructor title cli)) = [] \<and>
   stack_total (steps h Part_000 inherited_name_run (Constructor title cli)) = 0 \<and>
   results_total (steps h Part_000 inherited_name_run (Constructor title cli)) = 0"
proof -
  have out: "outcomes h Part_000 inherited_name_run (Constructor title cli) =
     [Inr (Reference Suite_instance), Inl TypeError]"
    by (simp add: inherited_name_run_def run_scenario_defs)
  have calls: "assertion_calls (steps h Part_000 inherited_name_run (Constructor title cli)) = 1"
    by (simp add: inherited_name_run_def run_scenario_defs assertion_calls_def)
  have index: "testIndex (steps h Part_000 inherited_name_run (Constructor title cli)) = 1"
    by (simp add: inherited_name_run_def run_scenario_defs)
  have empty: "stack (steps h Part_000 inherited_name_run (Constructor title cli)) = []"
    by (simp add: inherited_name_run_def run_scenario_defs)
  have results: "results_total (steps h Part_000 inherited_name_run (Constructor title cli)) = 0"
    by (simp add: inherited_name_run_def run_scenario_defs results_total_def)
  show ?thesis
    using out calls index empty results by (simp add: stack_total_def)
qed

lemma invoke_lines:
  "mset (lines s) \<subseteq># mset (lines (snd (invoke h c cl s)))"
proof -
  let ?s0 = "s\<lparr> events := events s @ [Called cl] \<rparr>"
  have s0: "lines ?s0 = lines s"
    by (simp add: lines_def)
  show ?thesis
  proof (cases "verdict h cl")
    case (Inl e)
    then show ?thesis
      using s0 by (simp add: invoke_cases)
  next
    case (Inr p)
    have "mset (lines ?s0) \<subseteq># mset (lines (snd (recordTest h c p (label c cl) ?s0)))"
      unfolding recordTest_lines by simp
    then show ?thesis
      using Inr s0 by (simp add: invoke_cases)
  qed
qed

lemma invoke_testIndex:
  fixes s :: world
  shows "testIndex s \<le> testIndex (snd (invoke h c cl s))"
  by (cases "verdict h cl") (simp_all add: invoke_cases recordTest_testIndex)

lemma kept_testIndex_above: "kept h c (\<lambda>s. n \<le> testIndex s)"
  unfolding kept_def
proof (intro conjI allI impI)
  fix cl and s :: world assume "n \<le> testIndex s"
  with invoke_testIndex [of s h c cl] show "n \<le> testIndex (snd (invoke h c cl s))"
    by simp
qed simp_all

lemma kept_lines_above: "kept h c (\<lambda>s. M \<subseteq># mset (lines s))"
  unfolding kept_def
proof (intro conjI allI impI)
  fix cl and s :: world assume "M \<subseteq># mset (lines s)"
  with invoke_lines [of s h c cl] show "M \<subseteq># mset (lines (snd (invoke h c cl s)))"
    by (meson subset_mset.order_trans)
qed (simp_all add: lines_def)

text \<open>
  What holds of the indices. A new suite has \<^verbatim>\<open>testIndex\<close> 0; no operation lowers
  \<^verbatim>\<open>testIndex\<close> or removes or changes a recorded index; in every suite reached from the
  constructor the recorded indices are distinct numbers among \<open>1, ..., testIndex\<close>,
  and the records of each case carry strictly increasing indices. A call that records
  (one that has a verdict, made where the read of the current case finds an own entry or
  nothing) records exactly the previous \<^verbatim>\<open>testIndex\<close> plus one.
\<close>

lemma indices_of_reachable_suite:
  "testIndex (Constructor title cli) = 0 \<and>
   testIndex s \<le> testIndex (snd (step h c x s)) \<and>
   mset (lines s) \<subseteq># mset (lines (snd (step h c x s))) \<and>
   mset (lines (steps h c xs (Constructor title cli))) \<subseteq>#
     mset [1..<Suc (testIndex (steps h c xs (Constructor title cli)))] \<and>
   list_all (\<lambda>kv. sorted_wrt (<) (case_lines (snd kv)))
     (stack (steps h c xs (Constructor title cli))) \<and>
   mset (lines (snd (recordTest h c p m s))) =
     (if recordable h s then add_mset (testIndex s + 1) (mset (lines s)) else mset (lines s)) \<and>
   testIndex (snd (recordTest h c p m s)) = testIndex s + 1"
proof -
  have apart: "indices_apart (steps h c xs (Constructor title cli))"
    using kept_indices_apart Constructor_indices_apart by (rule kept_steps)
  have up: "testIndex s \<le> testIndex (snd (step h c x s))"
    using kept_testIndex_above [of h c "testIndex s"] by (rule kept_step) simp
  have stay: "mset (lines s) \<subseteq># mset (lines (snd (step h c x s)))"
    using kept_lines_above [of h c "mset (lines s)"] by (rule kept_step) simp
  show ?thesis
    using apart up stay recordTest_lines [of h c p m s]
    by (simp add: indices_apart_def recordTest_testIndex Constructor_def)
qed

text \<open>
  Claim C4, where the code departs from it. Two cases are registered, \<^verbatim>\<open>ok\<close> and
  \<^verbatim>\<open>constructor\<close>, each with a body that calls \<^verbatim>\<open>this.pass()\<close>, and the suite is run
  twice, the caller catching the \<^verbatim>\<open>TypeError\<close> that each run throws. The call made under
  \<^verbatim>\<open>constructor\<close> takes an index each time and records nothing. So the recorded indices
  are 1 and 3, both under \<^verbatim>\<open>ok\<close>, while \<^verbatim>\<open>testIndex\<close> is 4: the second recorded assertion
  is not one above the first.
\<close>

theorem recorded_indices_skip:
  "outcomes h Part_000 inherited_name_calls (Constructor title cli) =
     [Inr (Reference Suite_instance), Inr (Reference Suite_instance),
      Inl TypeError, Inl TypeError] \<and>
   lines (steps h Part_000 inherited_name_calls (Constructor title cli)) = [1, 3] \<and>
   testIndex (steps h Part_000 inherited_name_calls (Constructor title cli)) = 4 \<and>
   summary (steps h Part_000 inherited_name_calls (Constructor title cli)) =
     ([(''ok'', 2, 0, [(''pass'', 1), (''pass'', 3)])], (2, 0))"
proof -
  have out: "outcomes h Part_000 inherited_name_calls (Constructor title cli) =
     [Inr (Reference Suite_instance), Inr (Reference Suite_instance),
      Inl TypeError, Inl TypeError]"
    by (simp add: inherited_name_calls_def run_scenario_defs)
  have recorded: "lines (steps h Part_000 inherited_name_calls (Constructor title cli)) = [1, 3]"
    by (simp add: inherited_name_calls_def run_scenario_defs lines_def case_lines_def)
  have index: "testIndex (steps h Part_000 inherited_name_calls (Constructor title cli)) = 4"
    by (simp add: inherited_name_calls_def run_scenario_defs)
  have shown: "summary (steps h Part_000 inherited_name_calls (Constructor title cli)) =
     ([(''ok'', 2, 0, [(''pass'', 1), (''pass'', 3)])], (2, 0))"
    by (simp add: inherited_name_calls_def run_scenario_defs)
  show ?thesis
    using out recorded index shown by (intro conjI)
qed

text \<open>
  Claim C8. A method of the assertion surface changes three fields of the instance and
  nothing else: \<^verbatim>\<open>testIndex\<close>, \<^verbatim>\<open>suiteResults\<close>, and \<^verbatim>\<open>stack\<close>, where the entries under
  keys other than that of the current case are as before, and the entry of the current
  case is written when the recorder records. The registered cases, the hooks and the
  global list \<^verbatim>\<open>Constructor.instances\<close> are as before. In every suite reached from the
  constructor the counters \<^verbatim>\<open>pass\<close> and \<^verbatim>\<open>fail\<close> of the registered cases are 0.
\<close>

theorem recording_writes_three_fields:
  "snd (dispatch h c cl s)
     \<lparr> testIndex := testIndex s, stack := stack s, suiteResults := suiteResults s \<rparr> = s \<and>
   snd (recordTest h c p m s)
     \<lparr> testIndex := testIndex s, stack := stack s, suiteResults := suiteResults s \<rparr> = s \<and>
   (map_of (stack (snd (dispatch h c cl s)))) (ToString h (currentTestCase s) := None) =
     (map_of (stack s)) (ToString h (currentTestCase s) := None) \<and>
   map_of (stack (snd (recordTest h c p m s))) =
     (if recordable h s
      then (map_of (stack s))
        (ToString h (currentTestCase s) \<mapsto> entry h (snd (recordTest h c p m s)))
      else map_of (stack s)) \<and>
   tests (snd (dispatch h c cl s)) = tests s \<and>
   instances (snd (dispatch h c cl s)) = instances s \<and>
   counters_zero (steps h c xs (Constructor title cli))"
proof -
  have frame: "snd (recordTest h c q n s)
     \<lparr> testIndex := testIndex s, stack := stack s, suiteResults := suiteResults s \<rparr> = s"
    for q n
    by (cases "recordable h s") (simp_all add: recordTest_recordable recordTest_inherited)
  have entry: "map_of (stack (snd (recordTest h c q n s))) =
     (if recordable h s
      then (map_of (stack s))
        (ToString h (currentTestCase s) \<mapsto> entry h (snd (recordTest h c q n s)))
      else map_of (stack s))"
    for q n
    by (cases "recordable h s")
       (simp_all add: recordTest_recordable recordTest_inherited entry_def map_of_put)
  have rest: "(map_of (stack (snd (recordTest h c q n s))))
       (ToString h (currentTestCase s) := None) =
     (map_of (stack s)) (ToString h (currentTestCase s) := None)"
    for q n
    unfolding entry by simp
  have others: "tests (snd (recordTest h c q n s)) = tests s"
    "instances (snd (recordTest h c q n s)) = instances s" for q n
    by (cases "recordable h s"; simp add: recordTest_recordable recordTest_inherited)+
  have zero: "counters_zero (steps h c xs (Constructor title cli))"
    using kept_counters_zero Constructor_counters_zero by (rule kept_steps)
  show ?thesis
    unfolding dispatch_recordTest
    using frame entry rest others zero
    by (cases "verdict h cl") simp_all
qed

subsection \<open>Running a suite\<close>

lemma string_of_nat_1: "string_of_nat (Suc 0) = ''1''"
  by (simp add: string_of_nat.simps digit_char_def)

text \<open>
  Claim C2. In the bundled copy, a new suite with one registered case whose body calls
  \<^verbatim>\<open>assert(true)\<close> and then \<^verbatim>\<open>assert(false)\<close> is run; the case is unnamed, or named by a
  string that is not the name of a member of \<^verbatim>\<open>Object.prototype\<close>. Registration and run
  return the suite. The stack then has one entry, that of the case, with \<^verbatim>\<open>pass = 1\<close>,
  \<^verbatim>\<open>fail = 1\<close> and two records, a pass with index 1 followed by a fail with index 2;
  \<^verbatim>\<open>suiteResults\<close> is \<^verbatim>\<open>{pass: 1, fail: 1}\<close>.
\<close>

theorem one_case_true_then_false:
  assumes "\<not> inherited name"
  shows "outcomes h Part_000
     [Test (Prim (Str name)) (Function i (true_then_false t1 t2 m1 m2)), Run]
     (Constructor title cli) =
     [Inr (Reference Suite_instance), Inr (Reference Suite_instance)] \<and>
   summary (steps h Part_000
     [Test (Prim (Str name)) (Function i (true_then_false t1 t2 m1 m2)), Run]
     (Constructor title cli)) =
     ([(name, 1, 1, [(''pass'', 1), (''fail'', 2)])], (1, 1)) \<and>
   outcomes h Part_000
     [Test (Function i (true_then_false t1 t2 m1 m2)) (Prim Undefined), Run]
     (Constructor title cli) =
     [Inr (Reference Suite_instance), Inr (Reference Suite_instance)] \<and>
   summary (steps h Part_000
     [Test (Function i (true_then_false t1 t2 m1 m2)) (Prim Undefined), Run]
     (Constructor title cli)) =
     ([(''Test Case #1'', 1, 1, [(''pass'', 1), (''fail'', 2)])], (1, 1))"
proof -
  have named: "outcomes h Part_000
     [Test (Prim (Str name)) (Function i (true_then_false t1 t2 m1 m2)), Run]
     (Constructor title cli) =
     [Inr (Reference Suite_instance), Inr (Reference Suite_instance)]"
    using assms by (simp add: run_one_case_defs)
  have named_summary: "summary (steps h Part_000
     [Test (Prim (Str name)) (Function i (true_then_false t1 t2 m1 m2)), Run]
     (Constructor title cli)) =
     ([(name, 1, 1, [(''pass'', 1), (''fail'', 2)])], (1, 1))"
    using assms by (simp add: run_one_case_defs)
  have unnamed: "outcomes h Part_000
     [Test (Function i (true_then_false t1 t2 m1 m2)) (Prim Undefined), Run]
     (Constructor title cli) =
     [Inr (Reference Suite_instance), Inr (Reference Suite_instance)]"
    by (simp add: run_one_case_defs string_of_nat_1 inherited_def)
  have unnamed_summary: "summary (steps h Part_000
     [Test (Function i (true_then_false t1 t2 m1 m2)) (Prim Undefined), Run]
     (Constructor title cli)) =
     ([(''Test Case #1'', 1, 1, [(''pass'', 1), (''fail'', 2)])], (1, 1))"
    by (simp add: run_one_case_defs string_of_nat_1 inherited_def)
  show ?thesis
    using named named_summary unnamed unnamed_summary by (intro conjI)
qed

theorem one_case_true_then_false_witness:
  "\<not> inherited ''sums'' \<and>
   outcomes bare_host Part_000
     [Test (Prim (Str ''sums'')) (Function 0 (true_then_false True False Undefined Undefined)),
      Run] sample_suite =
     [Inr (Reference Suite_instance), Inr (Reference Suite_instance)] \<and>
   summary (steps bare_host Part_000
     [Test (Prim (Str ''sums'')) (Function 0 (true_then_false True False Undefined Undefined)),
      Run] sample_suite) =
     ([(''sums'', 1, 1, [(''pass'', 1), (''fail'', 2)])], (1, 1))"
proof -
  have name: "\<not> inherited ''sums''"
    by (simp add: inherited_def)
  show ?thesis
    using name one_case_true_then_false [OF name, where h = bare_host and i = 0
        and ?t1.0 = True and ?t2.0 = False and ?m1.0 = Undefined and ?m2.0 = Undefined
        and title = "Str ''suite''" and cli = Undefined]
    by (simp add: sample_suite_def)
qed

text \<open>
  Claim C5, where the code departs from it. In \<^verbatim>\<open>lib/Testify/Testify.js\<close>, \<^verbatim>\<open>run\<close> tests
  the \<^verbatim>\<open>before\<close> hook with \<^verbatim>\<open>isCallable\<close> alone, and \<^verbatim>\<open>isCallable(null)\<close> reads a
  property of \<^verbatim>\<open>null\<close>. So on every suite whose \<^verbatim>\<open>before\<close> hook was never set, \<^verbatim>\<open>run\<close>
  throws a \<^verbatim>\<open>TypeError\<close> at once: no case body is applied, nothing is reported, the suite
  is as before. In particular a new suite with one registered case and no hook does not
  run in that copy, while the bundled copy applies the body to the suite, reports and
  returns the suite.
\<close>

theorem run_lib_without_before_hook:
  "run h (Lib_Testify pst) (s\<lparr> before_hook := Prim Null \<rparr>) =
     (Inl TypeError, s\<lparr> before_hook := Prim Null \<rparr>) \<and>
   outcomes h (Lib_Testify pst) [Test (Function i body) (Prim Undefined), Run]
     (Constructor title cli) = [Inr (Reference Suite_instance), Inl TypeError] \<and>
   events (steps h (Lib_Testify pst) [Test (Function i body) (Prim Undefined), Run]
     (Constructor title cli)) = [] \<and>
   outcomes h Part_000 [Test (Function i []) (Prim Undefined), Run]
     (Constructor title cli) = [Inr (Reference Suite_instance), Inr (Reference Suite_instance)] \<and>
   events (steps h Part_000 [Test (Function i []) (Prim Undefined), Run]
     (Constructor title cli)) = [Applied i Suite_instance [Suite_instance], Reported]"
proof -
  have general: "run h (Lib_Testify pst) (s\<lparr> before_hook := Prim Null \<rparr>) =
     (Inl TypeError, s\<lparr> before_hook := Prim Null \<rparr>)"
    by (simp add: run_def apply_hook_def isCallable_def)
  have lib: "outcomes h (Lib_Testify pst) [Test (Function i body) (Prim Undefined), Run]
     (Constructor title cli) = [Inr (Reference Suite_instance), Inl TypeError]"
    "events (steps h (Lib_Testify pst) [Test (Function i body) (Prim Undefined), Run]
     (Constructor title cli)) = []"
    by (simp_all add: test_def isCallable_def affirmCallable_def Constructor_def run_def
        apply_hook_def returning_def Let_def)
  have part: "outcomes h Part_000 [Test (Function i []) (Prim Undefined), Run]
     (Constructor title cli) = [Inr (Reference Suite_instance), Inr (Reference Suite_instance)]"
    "events (steps h Part_000 [Test (Function i []) (Prim Undefined), Run]
     (Constructor title cli)) = [Applied i Suite_instance [Suite_instance], Reported]"
    by (simp_all add: test_def isCallable_def affirmCallable_def Constructor_def run_def
        apply_hook_def returning_def Let_def report_def)
  show ?thesis
    using general lib part by (intro conjI)
qed

subsection \<open>The callable guard\<close>

text \<open>
  Claim C6, where the code departs from it. Handing \<^verbatim>\<open>null\<close> or \<^verbatim>\<open>undefined\<close> to a hook
  setter, or as the body of a named case (so also when the body is left out), raises a
  \<^verbatim>\<open>TypeError\<close>, not a \<^verbatim>\<open>TestifyException\<close>: \<^verbatim>\<open>isCallable\<close> reads \<^verbatim>\<open>fn.call\<close> before
  \<^verbatim>\<open>affirmCallable\<close> can throw. A boolean, a number or a string does raise
  \<^verbatim>\<open>TestifyException\<close>. In each case the suite is unchanged. A function is accepted.
\<close>

theorem null_callback_raises_TypeError:
  "before (Prim Null) s = (Inl TypeError, s) \<and>
   before (Prim Undefined) s = (Inl TypeError, s) \<and>
   after (Prim Null) s = (Inl TypeError, s) \<and>
   after (Prim Undefined) s = (Inl TypeError, s) \<and>
   beforeEach (Prim Null) s = (Inl TypeError, s) \<and>
   beforeEach (Prim Undefined) s = (Inl TypeError, s) \<and>
   afterEach (Prim Null) s = (Inl TypeError, s) \<and>
   afterEach (Prim Undefined) s = (Inl TypeError, s) \<and>
   test (Prim (Str name)) (Prim Null) s = (Inl TypeError, s) \<and>
   test (Prim (Str name)) (Prim Undefined) s = (Inl TypeError, s) \<and>
   before (Prim (Bool b)) s =
     (Inl (TestifyException ''before(): is not a valid callback function!''), s) \<and>
   before (Prim (Num n)) s =
     (Inl (TestifyException ''before(): is not a valid callback function!''), s) \<and>
   before (Prim (Str t)) s =
     (Inl (TestifyException ''before(): is not a valid callback function!''), s) \<and>
   test (Prim (Str name)) (Prim (Num n)) s =
     (Inl (TestifyException ''test(): is not a valid callback function!''), s) \<and>
   before (Function i body) s = (Inr (), s\<lparr> before_hook := Function i body \<rparr>)"
  by (simp add: before_def after_def beforeEach_def afterEach_def test_def
      affirmCallable_def isCallable_def)

subsection \<open>The order of a run in the bundled copy\<close>

lemma recordTest_static:
  "registered (snd (recordTest h c p m s)) = registered s"
  "lifecycle (snd (recordTest h c p m s)) = lifecycle s"
  by (cases "recordable h s";
      simp add: recordTest_recordable recordTest_inherited registered_def lifecycle_def)+

lemma invoke_static:
  "registered (snd (invoke h c cl s)) = registered s"
  "lifecycle (snd (invoke h c cl s)) = lifecycle s"
  "currentTestCase (snd (invoke h c cl s)) = currentTestCase s"
proof -
  let ?s0 = "s\<lparr> events := events s @ [Called cl] \<rparr>"
  have s0: "registered ?s0 = registered s" "lifecycle ?s0 = lifecycle s"
    "currentTestCase ?s0 = currentTestCase s"
    by (simp_all add: registered_def lifecycle_def)
  show "registered (snd (invoke h c cl s)) = registered s"
    using s0 by (cases "verdict h cl") (simp_all add: invoke_cases recordTest_static)
  show "lifecycle (snd (invoke h c cl s)) = lifecycle s"
    using s0 by (cases "verdict h cl") (simp_all add: invoke_cases recordTest_static)
  show "currentTestCase (snd (invoke h c cl s)) = currentTestCase s"
    by (cases "verdict h cl") (simp_all add: invoke_cases recordTest_currentTestCase)
qed

lemma invoke_plain:
  assumes "verdict h cl = Inr p" and "plain_name h (currentTestCase s)"
  shows "fst (invoke h c cl s) = Inr p"
proof -
  let ?s0 = "s\<lparr> events := events s @ [Called cl] \<rparr>"
  have "recordable h ?s0"
    using assms(2) by (simp add: recordable_iff plain_name_def)
  then show ?thesis
    using assms(1) by (simp add: invoke_cases recordTest_fst)
qed

lemma exec_stmt_static:
  "registered (snd (exec_stmt h c thisArg args st s)) = registered s"
  "lifecycle (snd (exec_stmt h c thisArg args st s)) = lifecycle s"
  "currentTestCase (snd (exec_stmt h c thisArg args st s)) = currentTestCase s"
proof -
  have "registered (snd (exec_stmt h c thisArg args st s)) = registered s \<and>
    lifecycle (snd (exec_stmt h c thisArg args st s)) = lifecycle s \<and>
    currentTestCase (snd (exec_stmt h c thisArg args st s)) = currentTestCase s"
  proof (cases st)
    case (Throw v)
    then show ?thesis by simp
  next
    case (Invoke t cl)
    obtain r s1 where e: "invoke h c cl s = (r, s1)"
      by (cases "invoke h c cl s")
    have "registered s1 = registered s" "lifecycle s1 = lifecycle s"
      "currentTestCase s1 = currentTestCase s"
      using invoke_static [of h c cl s] e by simp_all
    then show ?thesis
      using Invoke e by (cases r) (simp_all split: option.splits ref.splits)
  qed
  then show "registered (snd (exec_stmt h c thisArg args st s)) = registered s"
    "lifecycle (snd (exec_stmt h c thisArg args st s)) = lifecycle s"
    "currentTestCase (snd (exec_stmt h c thisArg args st s)) = currentTestCase s"
    by simp_all
qed

lemma exec_body_static:
  "registered (snd (exec_body h c thisArg args sts s)) = registered s \<and>
   lifecycle (snd (exec_body h c thisArg args sts s)) = lifecycle s \<and>
   currentTestCase (snd (exec_body h c thisArg args sts s)) = currentTestCase s"
proof (induction sts arbitrary: s)
  case Nil
  show ?case by simp
next
  case (Cons st sts)
  obtain r s1 where e: "exec_stmt h c thisArg args st s = (r, s1)"
    by (cases "exec_stmt h c thisArg args st s")
  have "registered s1 = registered s" "lifecycle s1 = lifecycle s"
    "currentTestCase s1 = currentTestCase s"
    using exec_stmt_static [of h c thisArg args st s] e by simp_all
  with Cons [of s1] e show ?case
    by (cases r) simp_all
qed

lemma exec_body_quiet:
  "list_all (quiet_stmt h) sts \<Longrightarrow> plain_name h (currentTestCase s) \<Longrightarrow>
   fst (exec_body h c Suite_instance [Suite_instance] sts s) = Inr ()"
proof (induction sts arbitrary: s)
  case Nil
  show ?case by simp
next
  case (Cons st sts)
  then obtain t cl p where st: "st = Invoke t cl" and t: "t = This \<or> t = Param 0"
    and p: "verdict h cl = Inr p"
    by (cases st) (auto split: sum.splits)
  obtain r s1 where e: "invoke h c cl s = (r, s1)"
    by (cases "invoke h c cl s")
  have r: "r = Inr p"
    using invoke_plain [OF p Cons.prems(2), of c] e by simp
  have s1: "plain_name h (currentTestCase s1)"
    using invoke_static(3) [of h c cl s] e Cons.prems(2) by simp
  have "exec_stmt h c Suite_instance [Suite_instance] st s = (Inr (), s1)"
    using st t e r by (auto simp: resolve_def)
  with Cons.IH [of s1] Cons.prems(1) s1 show ?case by simp
qed

lemma apply_fn_static:
  "registered (snd (apply_fn h c f Suite_instance [Suite_instance] s)) = registered s \<and>
   lifecycle (snd (apply_fn h c f Suite_instance [Suite_instance] s)) =
     lifecycle s @ application f \<and>
   currentTestCase (snd (apply_fn h c f Suite_instance [Suite_instance] s)) = currentTestCase s"
proof (cases f)
  case (Prim p)
  then show ?thesis by simp
next
  case (Function i body)
  let ?s0 = "s\<lparr> events := events s @ [Applied i Suite_instance [Suite_instance]] \<rparr>"
  have "registered ?s0 = registered s"
    and "lifecycle ?s0 = lifecycle s @ [Applied i Suite_instance [Suite_instance]]"
    and "currentTestCase ?s0 = currentTestCase s"
    by (simp_all add: registered_def lifecycle_def)
  with Function exec_body_static [of h c Suite_instance "[Suite_instance]" body ?s0]
  show ?thesis by simp
qed

lemma apply_fn_quiet:
  "quiet h f \<Longrightarrow> plain_name h (currentTestCase s) \<Longrightarrow>
   fst (apply_fn h c f Suite_instance [Suite_instance] s) = Inr ()"
  by (cases f) (simp_all add: exec_body_quiet)

lemma apply_hook_static:
  "registered (snd (apply_hook h c g f [Suite_instance] s)) = registered s \<and>
   lifecycle (snd (apply_hook h c g f [Suite_instance] s)) = lifecycle s @ application f \<and>
   currentTestCase (snd (apply_hook h c g f [Suite_instance] s)) = currentTestCase s"
proof (cases f)
  case (Prim p)
  then show ?thesis
    by (cases p) (simp_all add: apply_hook_def isCallable_def)
next
  case (Function i body)
  with apply_fn_static [of h c f s] show ?thesis
    by (simp add: apply_hook_def isCallable_def)
qed

lemma apply_hook_quiet:
  "unset_or_quiet h f \<Longrightarrow> plain_name h (currentTestCase s) \<Longrightarrow>
   fst (apply_hook h c True f [Suite_instance] s) = Inr ()"
  by (cases f) (auto simp: unset_or_quiet_def apply_hook_def isCallable_def exec_body_quiet)

lemma run_cases_order:
  assumes "unset_or_quiet h (beforeEach_hook s)" and "unset_or_quiet h (afterEach_hook s)"
    and "list_all (\<lambda>t. quiet h (tc_testCase t)) ts"
    and "list_all (\<lambda>t. plain_name h (tc_name t)) ts"
    and "plain_name h (currentTestCase s)"
  shows "fst (run_cases h c [Suite_instance] ts s) = Inr () \<and>
     registered (snd (run_cases h c [Suite_instance] ts s)) = registered s \<and>
     lifecycle (snd (run_cases h c [Suite_instance] ts s)) =
       lifecycle s @ concat (map (case_events s) ts) \<and>
     plain_name h (currentTestCase (snd (run_cases h c [Suite_instance] ts s)))"
  using assms
proof (induction ts arbitrary: s)
  case Nil
  then show ?case by simp
next
  case (Cons t ts)
  let ?arr = "[Suite_instance]"
  let ?s0 = "s\<lparr> currentTestCase := tc_name t \<rparr>"
  have s0: "registered ?s0 = registered s" "lifecycle ?s0 = lifecycle s"
    by (simp_all add: registered_def lifecycle_def)
  have n0: "plain_name h (currentTestCase ?s0)"
    using Cons.prems(4) by simp
  obtain r1 s1 where e1: "apply_hook h c True (beforeEach_hook s) ?arr ?s0 = (r1, s1)"
    by (cases "apply_hook h c True (beforeEach_hook s) ?arr ?s0")
  have r1: "r1 = Inr ()"
    using apply_hook_quiet [OF Cons.prems(1) n0, of c] e1 by simp
  have s1: "registered s1 = registered s"
    "lifecycle s1 = lifecycle s @ application (beforeEach_hook s)"
    and n1: "plain_name h (currentTestCase s1)"
    using apply_hook_static [of h c True "beforeEach_hook s" ?s0] e1 s0 n0 by simp_all
  obtain r2 s2 where e2: "apply_fn h c (tc_testCase t) Suite_instance ?arr s1 = (r2, s2)"
    by (cases "apply_fn h c (tc_testCase t) Suite_instance ?arr s1")
  have r2: "r2 = Inr ()"
    using apply_fn_quiet [of h "tc_testCase t" s1 c] Cons.prems(3) n1 e2 by simp
  have s2: "registered s2 = registered s"
    "lifecycle s2 = lifecycle s1 @ application (tc_testCase t)"
    and n2: "plain_name h (currentTestCase s2)"
    using apply_fn_static [of h c "tc_testCase t" s1] e2 s1 n1 by simp_all
  have after2: "afterEach_hook s2 = afterEach_hook s" "beforeEach_hook s2 = beforeEach_hook s"
    using s2(1) by (simp_all add: registered_def)
  obtain r3 s3 where e3: "apply_hook h c True (afterEach_hook s) ?arr s2 = (r3, s3)"
    by (cases "apply_hook h c True (afterEach_hook s) ?arr s2")
  have r3: "r3 = Inr ()"
    using apply_hook_quiet [OF Cons.prems(2) n2, of c] e3 by simp
  have s3: "registered s3 = registered s"
    "lifecycle s3 = lifecycle s2 @ application (afterEach_hook s)"
    and n3: "plain_name h (currentTestCase s3)"
    using apply_hook_static [of h c True "afterEach_hook s" s2] e3 s2 n2 by simp_all
  have hooks3: "beforeEach_hook s3 = beforeEach_hook s" "afterEach_hook s3 = afterEach_hook s"
    using s3(1) by (simp_all add: registered_def)
  have same_events: "case_events s3 = case_events s"
    by (simp add: case_events_def hooks3 fun_eq_iff)
  have rest: "fst (run_cases h c ?arr ts s3) = Inr () \<and>
     registered (snd (run_cases h c ?arr ts s3)) = registered s3 \<and>
     lifecycle (snd (run_cases h c ?arr ts s3)) =
       lifecycle s3 @ concat (map (case_events s3) ts) \<and>
     plain_name h (currentTestCase (snd (run_cases h c ?arr ts s3)))"
    using Cons.prems n3 by (intro Cons.IH) (simp_all add: hooks3)
  have unfold: "run_cases h c ?arr (t # ts) s = run_cases h c ?arr ts s3"
    using e1 e2 e3 r1 r2 r3 after2 by (simp add: Let_def)
  have head: "case_events s t =
      application (beforeEach_hook s) @ application (tc_testCase t) @
      application (afterEach_hook s)"
    by (simp add: case_events_def)
  show ?case
    unfolding unfold
    using rest s1 s2 s3 same_events head by simp
qed

text \<open>
  The order of claim C5 holds in the bundled copy. Let each hook be unset or a function
  that only calls the assertion surface, let each body be such a function, and let the
  current case and every registered case have a name that is not the name of a member of
  \<^verbatim>\<open>Object.prototype\<close>. Then \<^verbatim>\<open>run\<close> returns the suite, and it applies, each to the suite
  as receiver and sole argument and in this order: the \<^verbatim>\<open>before\<close> hook if set; for each
  registered case in registration order the \<^verbatim>\<open>beforeEach\<close> hook if set, the body, the
  \<^verbatim>\<open>afterEach\<close> hook if set; the \<^verbatim>\<open>after\<close> hook if set; then it calls \<^verbatim>\<open>report\<close>, and it
  pushes the suite on the list of instances.
\<close>

lemma run_order_bundled:
  assumes "unset_or_quiet h (before_hook s)" and "unset_or_quiet h (after_hook s)"
    and "unset_or_quiet h (beforeEach_hook s)" and "unset_or_quiet h (afterEach_hook s)"
    and "list_all (\<lambda>t. quiet h (tc_testCase t)) (tests s)"
    and "list_all (\<lambda>t. plain_name h (tc_name t)) (tests s)"
    and "plain_name h (currentTestCase s)"
  shows "fst (run h Part_000 s) = Inr Suite_instance \<and>
     lifecycle (snd (run h Part_000 s)) = lifecycle s @ run_events s \<and>
     instances (snd (run h Part_000 s)) = instances s @ [Suite_instance]"
proof -
  let ?c = "Part_000"
  let ?arr = "[Suite_instance]"
  obtain r1 s1 where e1: "apply_hook h ?c True (before_hook s) ?arr s = (r1, s1)"
    by (cases "apply_hook h ?c True (before_hook s) ?arr s")
  have r1: "r1 = Inr ()"
    using apply_hook_quiet [OF assms(1) assms(7), of ?c] e1 by simp
  have s1: "registered s1 = registered s"
    "lifecycle s1 = lifecycle s @ application (before_hook s)"
    and n1: "plain_name h (currentTestCase s1)"
    using apply_hook_static [of h ?c True "before_hook s" s] e1 assms(7) by simp_all
  have fields1: "tests s1 = tests s" "beforeEach_hook s1 = beforeEach_hook s"
    "afterEach_hook s1 = afterEach_hook s"
    using s1(1) by (simp_all add: registered_def)
  obtain r2 s2 where e2: "run_cases h ?c ?arr (tests s) s1 = (r2, s2)"
    by (cases "run_cases h ?c ?arr (tests s) s1")
  have cases_run: "fst (run_cases h ?c ?arr (tests s) s1) = Inr () \<and>
     registered (snd (run_cases h ?c ?arr (tests s) s1)) = registered s1 \<and>
     lifecycle (snd (run_cases h ?c ?arr (tests s) s1)) =
       lifecycle s1 @ concat (map (case_events s1) (tests s)) \<and>
     plain_name h (currentTestCase (snd (run_cases h ?c ?arr (tests s) s1)))"
    using assms(3-6) n1 by (intro run_cases_order) (simp_all add: fields1)
  have same_events: "case_events s1 = case_events s"
    by (simp add: case_events_def fields1 fun_eq_iff)
  have r2: "r2 = Inr ()" and s2: "registered s2 = registered s"
    "lifecycle s2 = lifecycle s1 @ concat (map (case_events s) (tests s))"
    and n2: "plain_name h (currentTestCase s2)"
    using cases_run e2 s1 same_events by simp_all
  have fields2: "after_hook s2 = after_hook s"
    using s2(1) by (simp add: registered_def)
  obtain r3 s3 where e3: "apply_hook h ?c True (after_hook s) ?arr s2 = (r3, s3)"
    by (cases "apply_hook h ?c True (after_hook s) ?arr s2")
  have r3: "r3 = Inr ()"
    using apply_hook_quiet [OF assms(2) n2, of ?c] e3 by simp
  have s3: "registered s3 = registered s"
    "lifecycle s3 = lifecycle s2 @ application (after_hook s)"
    using apply_hook_static [of h ?c True "after_hook s" s2] e3 s2 by simp_all
  have run: "run h ?c s =
      (Inr Suite_instance,
       (snd (report s3))\<lparr> instances := instances (snd (report s3)) @ [Suite_instance] \<rparr>)"
    using e1 e2 e3 r1 r2 r3 fields1 fields2 by (simp add: run_def Let_def report_def)
  have "instances s3 = instances s"
    using s3(1) by (simp add: registered_def)
  then show ?thesis
    unfolding run
    using s1 s2 s3
    by (simp add: report_def Let_def lifecycle_def run_events_def)
qed

subsection \<open>The two copies side by side\<close>

lemma same_message_refl: "same_message m m"
  by (simp add: same_message_def)

lemma same_message_label: "same_message (label (Lib_Testify pst) cl) (label Part_000 cl)"
  by (cases cl) (simp_all add: same_message_def)

lemma same_case_put:
  "list_all2 same_case ps ps' \<Longrightarrow> same_case (k, v) (k, v') \<Longrightarrow>
   list_all2 same_case (put k v ps) (put k v' ps')"
proof (induction rule: list_all2_induct)
  case Nil
  then show ?case by simp
next
  case (Cons p ps p' ps')
  have "fst p = fst p'"
    using Cons.hyps(1) by (simp add: same_case_def)
  then show ?case
    using Cons by auto
qed

lemma same_case_lookup:
  "list_all2 same_case ps ps' \<Longrightarrow>
   same_case
     (k, case map_of ps k of None \<Rightarrow> fresh | Some it \<Rightarrow> it)
     (k, case map_of ps' k of None \<Rightarrow> fresh | Some it \<Rightarrow> it)"
proof (induction rule: list_all2_induct)
  case Nil
  show ?case by (simp add: same_case_def list_all2_refl same_record_def same_message_refl)
next
  case (Cons p ps p' ps')
  have "fst p = fst p'"
    using Cons.hyps(1) by (simp add: same_case_def)
  moreover have "same_case (k, snd p) (k, snd p')"
    using Cons.hyps(1) by (simp add: same_case_def)
  ultimately show ?case
    using Cons.IH by (cases p; cases p') auto
qed

lemma same_case_record:
  assumes "same_case (k, item) (k, item')" and "same_record r r'"
  shows "same_case
     (k, increment_case result (item\<lparr> cr_tests := cr_tests item @ [r] \<rparr>))
     (k, increment_case result (item'\<lparr> cr_tests := cr_tests item' @ [r'] \<rparr>))"
  using assms
  by (simp add: same_case_def increment_case_def list_all2_appendI)

lemma same_case_keys:
  "list_all2 same_case ps ps' \<Longrightarrow> (map_of ps k = None) = (map_of ps' k = None)"
proof (induction rule: list_all2_induct)
  case Nil
  show ?case by simp
next
  case (Cons p ps p' ps')
  have "fst p = fst p'"
    using Cons.hyps(1) by (simp add: same_case_def)
  then show ?case
    using Cons.IH by (cases p; cases p') auto
qed

lemma same_suite_recordable:
  assumes "same_suite s s'"
  shows "recordable h s = recordable h s'"
proof -
  have "list_all2 same_case (stack s) (stack s')"
    and "currentTestCase s = currentTestCase s'"
    using assms by (simp_all add: same_suite_def)
  then show ?thesis
    using same_case_keys [of "stack s" "stack s'" "ToString h (currentTestCase s)"]
    by (simp add: recordable_iff)
qed

lemma agree_recordTest:
  assumes "same_suite s s'" and "same_message m m'" and "ToBoolean m" and "ToBoolean m'"
  shows "agree (recordTest h (Lib_Testify pst) p m s) (recordTest h Part_000 p m' s')"
proof (cases "recordable h s")
  case False
  then have "\<not> recordable h s'"
    using same_suite_recordable [OF assms(1), of h] by simp
  with False assms(1) show ?thesis
    by (simp add: recordTest_inherited agree_def same_suite_def)
next
  case True
  then have True': "recordable h s'"
    using same_suite_recordable [OF assms(1), of h] by simp
  let ?k = "ToString h (currentTestCase s)"
  let ?result = "if p then ''pass'' else ''fail''"
  let ?r = "new_record (Lib_Testify pst) p m s"
  let ?r' = "new_record Part_000 p m' s'"
  have stacks: "list_all2 same_case (stack s) (stack s')"
    and cur: "currentTestCase s' = currentTestCase s" and idx: "testIndex s' = testIndex s"
    using assms(1) by (simp_all add: same_suite_def)
  have rec: "same_record ?r ?r'"
    using assms(2-4) idx by (simp add: same_record_def new_record_def or_else_def)
  have "same_case (?k, entry h s) (?k, entry h s')"
    unfolding entry_def cur using stacks by (rule same_case_lookup)
  then have "same_case (?k, new_entry h (Lib_Testify pst) p m s) (?k, new_entry h Part_000 p m' s')"
    unfolding new_entry_def using rec by (rule same_case_record)
  with stacks have "list_all2 same_case
      (put ?k (new_entry h (Lib_Testify pst) p m s) (stack s))
      (put ?k (new_entry h Part_000 p m' s') (stack s'))"
    by (rule same_case_put)
  then show ?thesis
    using assms(1)
    by (simp add: recordTest_recordable [OF True] recordTest_recordable [OF True'] cur
        agree_def same_suite_def)
qed

lemma agree_invoke:
  assumes "same_suite s s'"
  shows "agree (invoke h (Lib_Testify pst) cl s) (invoke h Part_000 cl s')"
proof -
  have called: "same_suite (s\<lparr> events := events s @ [Called cl] \<rparr>)
      (s'\<lparr> events := events s' @ [Called cl] \<rparr>)"
    using assms by (simp add: same_suite_def)
  show ?thesis
  proof (cases "verdict h cl")
    case (Inl e)
    with called show ?thesis
      by (simp add: invoke_cases agree_def)
  next
    case (Inr p)
    have "agree
        (recordTest h (Lib_Testify pst) p (label (Lib_Testify pst) cl)
          (s\<lparr> events := events s @ [Called cl] \<rparr>))
        (recordTest h Part_000 p (label Part_000 cl) (s'\<lparr> events := events s' @ [Called cl] \<rparr>))"
      using called same_message_label label_truthy label_truthy by (rule agree_recordTest)
    with Inr show ?thesis
      by (simp add: invoke_cases)
  qed
qed

lemma agreeI: "a = a' \<Longrightarrow> same_suite s s' \<Longrightarrow> agree (a, s) (a', s')"
  by (simp add: agree_def)

lemma agree_exec_stmt:
  assumes "same_suite s s'"
  shows "agree (exec_stmt h (Lib_Testify pst) thisArg args st s)
    (exec_stmt h Part_000 thisArg args st s')"
proof (cases st)
  case (Throw v)
  with assms show ?thesis by (simp add: agree_def)
next
  case (Invoke t cl)
  obtain r u where l: "invoke h (Lib_Testify pst) cl s = (r, u)"
    by (cases "invoke h (Lib_Testify pst) cl s")
  obtain r' u' where p: "invoke h Part_000 cl s' = (r', u')"
    by (cases "invoke h Part_000 cl s'")
  have "agree (r, u) (r', u')"
    using agree_invoke [OF assms, of h pst cl] l p by simp
  then have "r' = r" and "same_suite u u'"
    by (simp_all add: agree_def)
  with Invoke assms l p show ?thesis
    by (cases r) (simp_all add: agree_def split: option.splits ref.splits)
qed

lemma agree_exec_body:
  "same_suite s s' \<Longrightarrow>
   agree (exec_body h (Lib_Testify pst) thisArg args sts s) (exec_body h Part_000 thisArg args sts s')"
proof (induction sts arbitrary: s s')
  case Nil
  then show ?case by (simp add: agree_def)
next
  case (Cons st sts)
  obtain r t where l: "exec_stmt h (Lib_Testify pst) thisArg args st s = (r, t)"
    by (cases "exec_stmt h (Lib_Testify pst) thisArg args st s")
  obtain r' t' where p: "exec_stmt h Part_000 thisArg args st s' = (r', t')"
    by (cases "exec_stmt h Part_000 thisArg args st s'")
  have "agree (r, t) (r', t')"
    using agree_exec_stmt [OF Cons.prems, of h pst thisArg args st] l p by simp
  then have r: "r' = r" and t: "same_suite t t'"
    by (simp_all add: agree_def)
  show ?case
  proof (cases r)
    case (Inl e)
    with l p r t show ?thesis by (simp add: agree_def)
  next
    case (Inr u)
    with l p r Cons.IH [OF t] show ?thesis by simp
  qed
qed

lemma agree_apply_fn:
  assumes "same_suite s s'"
  shows "agree (apply_fn h (Lib_Testify pst) f thisArg args s) (apply_fn h Part_000 f thisArg args s')"
proof (cases f)
  case (Prim p)
  with assms show ?thesis by (simp add: agree_def)
next
  case (Function i body)
  have "same_suite (s\<lparr> events := events s @ [Applied i thisArg args] \<rparr>)
      (s'\<lparr> events := events s' @ [Applied i thisArg args] \<rparr>)"
    using assms by (simp add: same_suite_def)
  with Function show ?thesis
    by (simp add: agree_exec_body)
qed

lemma agree_apply_hook:
  "same_suite s s' \<Longrightarrow>
   agree (apply_hook h (Lib_Testify pst) g f arr s) (apply_hook h Part_000 g f arr s')"
  by (auto simp: apply_hook_def agree_apply_fn intro: agreeI split: sum.splits)

lemma agree_run_cases:
  "same_suite s s' \<Longrightarrow>
   agree (run_cases h (Lib_Testify pst) arr ts s) (run_cases h Part_000 arr ts s')"
proof (induction ts arbitrary: s s')
  case Nil
  then show ?case by (simp add: agree_def)
next
  case (Cons t ts)
  let ?L = "Lib_Testify pst"
  let ?s0 = "s\<lparr> currentTestCase := tc_name t \<rparr>"
  let ?s0' = "s'\<lparr> currentTestCase := tc_name t \<rparr>"
  have a0: "same_suite ?s0 ?s0'"
    using Cons.prems by (simp add: same_suite_def)
  then have h0: "beforeEach_hook ?s0' = beforeEach_hook ?s0"
    by (simp add: same_suite_def)
  obtain r1 s1 where l1: "apply_hook h ?L True (beforeEach_hook ?s0) arr ?s0 = (r1, s1)"
    by (cases "apply_hook h ?L True (beforeEach_hook ?s0) arr ?s0")
  obtain r1' s1' where p1: "apply_hook h Part_000 True (beforeEach_hook ?s0) arr ?s0' = (r1', s1')"
    by (cases "apply_hook h Part_000 True (beforeEach_hook ?s0) arr ?s0'")
  have "agree (r1, s1) (r1', s1')"
    using agree_apply_hook [OF a0, of h pst True "beforeEach_hook ?s0" arr] l1 p1 by simp
  then have r1: "r1' = r1" and a1: "same_suite s1 s1'"
    by (simp_all add: agree_def)
  obtain r2 s2 where l2: "apply_fn h ?L (tc_testCase t) Suite_instance arr s1 = (r2, s2)"
    by (cases "apply_fn h ?L (tc_testCase t) Suite_instance arr s1")
  obtain r2' s2' where p2: "apply_fn h Part_000 (tc_testCase t) Suite_instance arr s1' = (r2', s2')"
    by (cases "apply_fn h Part_000 (tc_testCase t) Suite_instance arr s1'")
  have "agree (r2, s2) (r2', s2')"
    using agree_apply_fn [OF a1, of h pst "tc_testCase t" Suite_instance arr] l2 p2 by simp
  then have r2: "r2' = r2" and a2: "same_suite s2 s2'"
    by (simp_all add: agree_def)
  have h2: "afterEach_hook s2' = afterEach_hook s2"
    using a2 by (simp add: same_suite_def)
  obtain r3 s3 where l3: "apply_hook h ?L True (afterEach_hook s2) arr s2 = (r3, s3)"
    by (cases "apply_hook h ?L True (afterEach_hook s2) arr s2")
  obtain r3' s3' where p3: "apply_hook h Part_000 True (afterEach_hook s2) arr s2' = (r3', s3')"
    by (cases "apply_hook h Part_000 True (afterEach_hook s2) arr s2'")
  have "agree (r3, s3) (r3', s3')"
    using agree_apply_hook [OF a2, of h pst True "afterEach_hook s2" arr] l3 p3 by simp
  then have r3: "r3' = r3" and a3: "same_suite s3 s3'"
    by (simp_all add: agree_def)
  have rest: "agree (run_cases h ?L arr ts s3) (run_cases h Part_000 arr ts s3')"
    using a3 by (rule Cons.IH)
  have left: "run_cases h ?L arr (t # ts) s =
      (case r1 of Inl e \<Rightarrow> (Inl e, s1) | Inr u \<Rightarrow>
        (case r2 of Inl e \<Rightarrow> (Inl e, s2) | Inr u \<Rightarrow>
          (case r3 of Inl e \<Rightarrow> (Inl e, s3) | Inr u \<Rightarrow> run_cases h ?L arr ts s3)))"
    using l1 l2 l3 by (simp add: Let_def split: sum.splits)
  have right: "run_cases h Part_000 arr (t # ts) s' =
      (case r1 of Inl e \<Rightarrow> (Inl e, s1') | Inr u \<Rightarrow>
        (case r2 of Inl e \<Rightarrow> (Inl e, s2') | Inr u \<Rightarrow>
          (case r3 of Inl e \<Rightarrow> (Inl e, s3') | Inr u \<Rightarrow> run_cases h Part_000 arr ts s3')))"
    using p1 p2 p3 h0 h2 r1 r2 r3 by (simp add: Let_def split: sum.splits)
  show ?case
    unfolding left right
    using a1 a2 a3 rest
    by (cases r1; cases r2; cases r3) (simp_all add: agree_def)
qed

lemma agree_report: "same_suite s s' \<Longrightarrow> agree (report s) (report s')"
  by (simp add: agree_def report_def Let_def same_suite_def)

lemma apply_hook_guard:
  "f \<noteq> Prim Null \<Longrightarrow> apply_hook h c False f arr s = apply_hook h c True f arr s"
  by (simp add: apply_hook_def)

lemma agree_run:
  assumes "same_suite s s'" and "before_hook s' \<noteq> Prim Null"
  shows "agree (run h (Lib_Testify pst) s) (run h Part_000 s')"
proof -
  let ?L = "Lib_Testify pst"
  let ?arr = "[Suite_instance]"
  have hook: "before_hook s' = before_hook s"
    using assms(1) by (simp add: same_suite_def)
  obtain r1 s1 where l1: "apply_hook h ?L False (before_hook s) ?arr s = (r1, s1)"
    by (cases "apply_hook h ?L False (before_hook s) ?arr s")
  obtain r1' s1' where p1: "apply_hook h Part_000 True (before_hook s) ?arr s' = (r1', s1')"
    by (cases "apply_hook h Part_000 True (before_hook s) ?arr s'")
  have "apply_hook h ?L False (before_hook s) ?arr s = apply_hook h ?L True (before_hook s) ?arr s"
    using assms(2) hook by (simp add: apply_hook_guard)
  then have "agree (r1, s1) (r1', s1')"
    using agree_apply_hook [OF assms(1), of h pst True "before_hook s" ?arr] l1 p1 by simp
  then have r1: "r1' = r1" and a1: "same_suite s1 s1'"
    by (simp_all add: agree_def)
  have t1: "tests s1' = tests s1"
    using a1 by (simp add: same_suite_def)
  obtain r2 s2 where l2: "run_cases h ?L ?arr (tests s1) s1 = (r2, s2)"
    by (cases "run_cases h ?L ?arr (tests s1) s1")
  obtain r2' s2' where p2: "run_cases h Part_000 ?arr (tests s1) s1' = (r2', s2')"
    by (cases "run_cases h Part_000 ?arr (tests s1) s1'")
  have "agree (r2, s2) (r2', s2')"
    using agree_run_cases [OF a1, of h pst ?arr "tests s1"] l2 p2 by simp
  then have r2: "r2' = r2" and a2: "same_suite s2 s2'"
    by (simp_all add: agree_def)
  have h2: "after_hook s2' = after_hook s2"
    using a2 by (simp add: same_suite_def)
  obtain r3 s3 where l3: "apply_hook h ?L True (after_hook s2) ?arr s2 = (r3, s3)"
    by (cases "apply_hook h ?L True (after_hook s2) ?arr s2")
  obtain r3' s3' where p3: "apply_hook h Part_000 True (after_hook s2) ?arr s2' = (r3', s3')"
    by (cases "apply_hook h Part_000 True (after_hook s2) ?arr s2'")
  have "agree (r3, s3) (r3', s3')"
    using agree_apply_hook [OF a2, of h pst True "after_hook s2" ?arr] l3 p3 by simp
  then have r3: "r3' = r3" and a3: "same_suite s3 s3'"
    by (simp_all add: agree_def)
  have a4: "same_suite (snd (report s3)) ((snd (report s3'))\<lparr> instances := i \<rparr>)" for i
    using a3 by (simp add: report_def Let_def same_suite_def)
  have left: "run h ?L s =
      (case r1 of Inl e \<Rightarrow> (Inl e, s1) | Inr u \<Rightarrow>
        (case r2 of Inl e \<Rightarrow> (Inl e, s2) | Inr u \<Rightarrow>
          (case r3 of Inl e \<Rightarrow> (Inl e, s3) | Inr u \<Rightarrow>
            (Inr Suite_instance, snd (report s3)))))"
    using l1 l2 l3 by (simp add: run_def Let_def report_def split: sum.splits)
  have right: "run h Part_000 s' =
      (case r1 of Inl e \<Rightarrow> (Inl e, s1') | Inr u \<Rightarrow>
        (case r2 of Inl e \<Rightarrow> (Inl e, s2') | Inr u \<Rightarrow>
          (case r3 of Inl e \<Rightarrow> (Inl e, s3') | Inr u \<Rightarrow>
            (Inr Suite_instance,
             (snd (report s3'))\<lparr> instances := instances (snd (report s3')) @ [Suite_instance] \<rparr>))))"
    using p1 p2 p3 hook t1 h2 r1 r2 r3 by (simp add: run_def Let_def report_def split: sum.splits)
  show ?thesis
    unfolding left right
    using a1 a2 a3 a4
    by (cases r1; cases r2; cases r3) (simp_all add: agree_def)
qed

lemma agree_returning: "agree r r' \<Longrightarrow> agree (returning f r) (returning f r')"
  by (cases r; cases r') (auto simp: agree_def returning_def split: sum.splits)

lemma agree_registration:
  assumes "same_suite s s'"
  shows "agree (test name testCase s) (test name testCase s')"
    and "agree (before f s) (before f s')" and "agree (after f s) (after f s')"
    and "agree (beforeEach f s) (beforeEach f s')" and "agree (afterEach f s) (afterEach f s')"
  using assms
  by (auto simp: agree_def test_def before_def after_def beforeEach_def afterEach_def
      Let_def same_suite_def split: sum.splits)

lemma agree_step:
  assumes "same_suite s s'" and "case x of Run \<Rightarrow> before_hook s' \<noteq> Prim Null | _ \<Rightarrow> True"
  shows "agree (step h (Lib_Testify pst) x s) (step h Part_000 x s')"
proof (cases x)
  case (Do cl)
  have "agree (invoke h (Lib_Testify pst) cl s) (invoke h Part_000 cl s')"
    using assms(1) by (rule agree_invoke)
  then show ?thesis
    using Do by (simp add: agree_returning)
next
  case Run
  with assms show ?thesis
    by (simp add: agree_returning agree_run)
qed (simp_all add: agree_returning agree_registration [OF assms(1)] agree_report [OF assms(1)])

lemma agree_steps:
  "same_suite s s' \<Longrightarrow> before_set_at_runs h xs s' \<Longrightarrow>
   outcomes h (Lib_Testify pst) xs s = outcomes h Part_000 xs s' \<and>
   same_suite (steps h (Lib_Testify pst) xs s) (steps h Part_000 xs s')"
proof (induction xs arbitrary: s s')
  case Nil
  then show ?case by simp
next
  case (Cons x xs)
  have "agree (step h (Lib_Testify pst) x s) (step h Part_000 x s')"
    using Cons.prems by (intro agree_step) simp_all
  then have "fst (step h (Lib_Testify pst) x s) = fst (step h Part_000 x s')"
    and "same_suite (snd (step h (Lib_Testify pst) x s)) (snd (step h Part_000 x s'))"
    by (simp_all add: agree_def)
  moreover have "before_set_at_runs h xs (snd (step h Part_000 x s'))"
    using Cons.prems by simp
  ultimately show ?case
    using Cons.IH by simp
qed

lemma same_suite_refl: "same_suite s s"
  by (simp add: same_suite_def same_case_def same_record_def same_message_def list_all2_refl)

text \<open>
  Claim C9, as the code has it. Let the same calls be made on a new suite of each copy,
  and let a \<^verbatim>\<open>before\<close> hook be set whenever \<^verbatim>\<open>run\<close> is called. Then every call returns
  the same value or throws the same error in both copies, and the two suites end with
  the same fields, the same stack keys, counters, outcomes and sequence indices; the
  message of a record is the same in both, or it is \<^verbatim>\<open>Testify.assertTrue\<close> in
  \<^verbatim>\<open>lib/Testify/Testify.js\<close> where the bundled copy has \<^verbatim>\<open>Testify.assert\<close>, or
  \<^verbatim>\<open>Testify.assertEquals\<close> where the bundled copy has \<^verbatim>\<open>Testify.assertEqual\<close>. The
  type of a record (the stack trace) and the list of instances are not compared.
\<close>

theorem copies_agree_up_to_defaults:
  assumes "before_set_at_runs h xs (Constructor title cli)"
  shows "outcomes h (Lib_Testify pst) xs (Constructor title cli) =
           outcomes h Part_000 xs (Constructor title cli) \<and>
         same_suite (steps h (Lib_Testify pst) xs (Constructor title cli))
           (steps h Part_000 xs (Constructor title cli))"
  using same_suite_refl assms by (rule agree_steps)

theorem copies_agree_witness:
  "before_set_at_runs bare_host sample_calls (Constructor (Str ''suite'') Undefined) \<and>
   outcomes bare_host (Lib_Testify no_trace) sample_calls (Constructor (Str ''suite'') Undefined) =
     outcomes bare_host Part_000 sample_calls (Constructor (Str ''suite'') Undefined) \<and>
   same_suite (steps bare_host (Lib_Testify no_trace) sample_calls (Constructor (Str ''suite'') Undefined))
     (steps bare_host Part_000 sample_calls (Constructor (Str ''suite'') Undefined))"
proof -
  have set: "before_set_at_runs bare_host sample_calls (Constructor (Str ''suite'') Undefined)"
    by (simp add: sample_calls_def Constructor_def before_def affirmCallable_def
        isCallable_def returning_def test_def Let_def)
  show ?thesis
    using set copies_agree_up_to_defaults [OF set, of no_trace] by simp
qed

text \<open>
  Claim C9 as the specification words it fails on the messages: after
  \<^verbatim>\<open>assert(true)\<close> without a message the record is named \<^verbatim>\<open>Testify.assertTrue\<close> in
  \<^verbatim>\<open>lib/Testify/Testify.js\<close> and \<^verbatim>\<open>Testify.assert\<close> in the bundled copy.
\<close>

theorem copies_differ_counterexample:
  "map (map ar_name \<circ> cr_tests \<circ> snd)
     (stack (steps bare_host (Lib_Testify no_trace) [Do (Assert (Bool True) Undefined)]
        (Constructor (Str ''suite'') Undefined))) = [[Str ''Testify.assertTrue'']] \<and>
   map (map ar_name \<circ> cr_tests \<circ> snd)
     (stack (steps bare_host Part_000 [Do (Assert (Bool True) Undefined)]
        (Constructor (Str ''suite'') Undefined))) = [[Str ''Testify.assert'']]"
  by (simp add: invoke_def assert_def assertTrue_def recordTest_def lookup_def inherited_def
      Let_def or_else_def Constructor_def increment_case_def returning_def)

end
